theory Spec2Isabelle
  imports Main "HOL-Library.Sublist"
begin

section \<open>Paths: the functions of \<^verbatim>\<open>path\<close> (POSIX) that \<^verbatim>\<open>index.mjs\<close> imports\<close>

text \<open>
  \<^verbatim>\<open>index.mjs\<close> imports \<^verbatim>\<open>join\<close> and \<^verbatim>\<open>relative\<close> from the platform's path module.
  They are modelled on strings, at the level of path segments: a path is cut at every
  \<^verbatim>\<open>/\<close>, the segments are normalised as the platform's \<^verbatim>\<open>normalizeString\<close> does (empty
  segments and \<^verbatim>\<open>.\<close> are dropped, \<^verbatim>\<open>..\<close> removes the segment before it), and the result is
  glued together again.
\<close>

fun splitSep :: "string \<Rightarrow> string list" where
  "splitSep [] = [[]]"
| "splitSep (c # cs) =
     (if c = CHR ''/'' then [] # splitSep cs
      else (case splitSep cs of [] \<Rightarrow> [[c]] | s # ss \<Rightarrow> (c # s) # ss))"

fun joinSep :: "string list \<Rightarrow> string" where
  "joinSep [] = []"
| "joinSep [s] = s"
| "joinSep (s # t # ss) = s @ ''/'' @ joinSep (t # ss)"

definition isAbsolute :: "string \<Rightarrow> bool" where
  "isAbsolute p = (case p of [] \<Rightarrow> False | c # _ \<Rightarrow> c = CHR ''/'')"

definition trailingSeparator :: "string \<Rightarrow> bool" where
  "trailingSeparator p = (p \<noteq> [] \<and> last p = CHR ''/'')"

text \<open>The segment loop of \<^verbatim>\<open>normalizeString\<close>; \<open>res\<close> holds the segments kept so far.\<close>

fun normalizeSegments :: "bool \<Rightarrow> string list \<Rightarrow> string list \<Rightarrow> string list" where
  "normalizeSegments allowAboveRoot res [] = res"
| "normalizeSegments allowAboveRoot res (s # ss) =
     (if s = [] \<or> s = ''.'' then normalizeSegments allowAboveRoot res ss
      else if s = ''..'' then
        (if res \<noteq> [] \<and> last res \<noteq> ''..'' then normalizeSegments allowAboveRoot (butlast res) ss
         else if allowAboveRoot then normalizeSegments allowAboveRoot (res @ [''..'']) ss
         else normalizeSegments allowAboveRoot res ss)
      else normalizeSegments allowAboveRoot (res @ [s]) ss)"

definition normalizeString :: "string \<Rightarrow> bool \<Rightarrow> string" where
  "normalizeString path allowAboveRoot =
     joinSep (normalizeSegments allowAboveRoot [] (splitSep path))"

definition normalize_path :: "string \<Rightarrow> string" where
  "normalize_path path =
     (if path = [] then ''.''
      else
        (let path' = normalizeString path (\<not> isAbsolute path) in
         if path' = [] then
           (if isAbsolute path then ''/'' else if trailingSeparator path then ''./'' else ''.'')
         else
           (let path'' = (if trailingSeparator path then path' @ ''/'' else path') in
            if isAbsolute path then ''/'' @ path'' else path'')))"

text \<open>\<^verbatim>\<open>join(a, b)\<close>: the non-empty arguments glued with \<^verbatim>\<open>/\<close>, then normalised.\<close>

definition join :: "string \<Rightarrow> string \<Rightarrow> string" where
  "join a b =
     (if a = [] \<and> b = [] then ''.''
      else if a = [] then normalize_path b
      else if b = [] then normalize_path a
      else normalize_path (a @ ''/'' @ b))"

text \<open>
  \<^verbatim>\<open>resolve(p)\<close> with the process's working directory \<open>cwd\<close>: an absolute path, without
  a trailing separator.
\<close>

definition resolve :: "string \<Rightarrow> string \<Rightarrow> string" where
  "resolve cwd p =
     (let full = (if isAbsolute p then p else cwd @ ''/'' @ p) in
      if isAbsolute full then ''/'' @ normalizeString full False
      else (let r = normalizeString full True in if r = [] then ''.'' else r))"

fun dropCommon :: "string list \<Rightarrow> string list \<Rightarrow> string list \<times> string list" where
  "dropCommon (a # as) (b # bs) = (if a = b then dropCommon as bs else (a # as, b # bs))"
| "dropCommon as bs = (as, bs)"

text \<open>
  \<^verbatim>\<open>relative(from, to)\<close>: both paths resolved, their common leading segments removed, one
  \<^verbatim>\<open>..\<close> for every segment left of \<open>from\<close>, then what is left of \<open>to\<close>.
\<close>

definition relative :: "string \<Rightarrow> string \<Rightarrow> string \<Rightarrow> string" where
  "relative cwd from to =
     (if from = to then []
      else
        (let from' = resolve cwd from; to' = resolve cwd to in
         if from' = to' then []
         else
           (let (fs, ts) = dropCommon (filter (\<lambda>s. s \<noteq> []) (splitSep from'))
                                      (filter (\<lambda>s. s \<noteq> []) (splitSep to'))
            in joinSep (replicate (length fs) ''..'' @ ts))))"

section \<open>The filesystem and the two calls of \<^verbatim>\<open>fs/promises\<close> that are imported\<close>

datatype errno = ENOENT | EACCES | ENOTDIR | EISDIR | ELOOP | EMFILE | EIO

text \<open>
  What a directory entry can be. \<^verbatim>\<open>Dirent.isDirectory()\<close> is true for \<open>DirectoryT\<close> only: a
  symbolic link is reported as a link, whatever it points to.
\<close>

datatype file_type = RegularT | DirectoryT | SymlinkT | FifoT | SocketT | CharDeviceT | BlockDeviceT

text \<open>
  A filesystem is a finite tree. \<open>Leaf t r\<close> is an entry that is not a directory, of type
  \<open>t\<close>, and \<open>r\<close> is what reading it as UTF-8 text yields (for a link: reading what it points
  to). \<open>Dir es\<close> is a directory with its entries in the order the system lists them.
  \<open>BadDir e\<close> is a directory whose listing fails with \<open>e\<close> (no permission, removed
  meanwhile, ...). Links are not followed in the middle of a path.
\<close>

datatype node =
    Leaf file_type "errno + string"
  | Dir "(string \<times> node) list"
  | BadDir errno

fun node_type :: "node \<Rightarrow> file_type" where
  "node_type (Leaf t r) = t"
| "node_type (Dir es) = DirectoryT"
| "node_type (BadDir e) = DirectoryT"

text \<open>
  Path resolution by the system, segment by segment, from the node \<open>cur\<close> whose ancestors
  are \<open>parents\<close> (nearest first).
\<close>

fun namei :: "node \<Rightarrow> node list \<Rightarrow> string list \<Rightarrow> errno + node" where
  "namei cur parents [] = Inr cur"
| "namei cur parents (s # ss) =
     (case cur of
        Leaf t r \<Rightarrow> Inl ENOTDIR
      | BadDir e \<Rightarrow>
          (if s = [] \<or> s = ''.'' then namei cur parents ss
           else if s = ''..'' then
             (case parents of [] \<Rightarrow> namei cur [] ss | p # ps \<Rightarrow> namei p ps ss)
           else Inl e)
      | Dir es \<Rightarrow>
          (if s = [] \<or> s = ''.'' then namei cur parents ss
           else if s = ''..'' then
             (case parents of [] \<Rightarrow> namei cur [] ss | p # ps \<Rightarrow> namei p ps ss)
           else
             (case map_of es s of
                None \<Rightarrow> Inl ENOENT
              | Some c \<Rightarrow> namei c (cur # parents) ss)))"

text \<open>
  The world a handler runs in. Its state: the filesystem (\<open>root\<close> is the directory
  \<^verbatim>\<open>/\<close>), the working directory of the process, every call made to the filesystem so far
  with its outcome (oldest first), and what was written to standard error. And a limit
  of the platform, which differs from one platform to the next: \<open>max_spread\<close>, the largest
  number of arguments a call \<^verbatim>\<open>f(...xs)\<close> can spread before the platform throws a range
  error.
\<close>

datatype fs_call =
    ReaddirCall string "errno option"
  | ReadFileCall string "errno option"

record world =
  root :: node
  cwd :: string
  fs_log :: "fs_call list"
  stderr :: "string list"
  max_spread :: nat

definition lookup_path :: "world \<Rightarrow> string \<Rightarrow> errno + node" where
  "lookup_path w p =
     (if p = [] then Inl ENOENT
      else namei (root w) [] ((if isAbsolute p then [] else splitSep (cwd w)) @ splitSep p))"

text \<open>What a handler throws.\<close>

datatype exn =
    Error string          \<comment> \<open>\<^verbatim>\<open>new Error(message)\<close>\<close>
  | SystemError errno     \<comment> \<open>the rejection of a call to the filesystem\<close>
  | TypeError string      \<comment> \<open>thrown by the platform on an argument of the wrong type or shape\<close>
  | RangeError string     \<comment> \<open>thrown by the platform when a call has too many arguments\<close>

fun errno_name :: "errno \<Rightarrow> string" where
  "errno_name ENOENT = ''ENOENT''"
| "errno_name EACCES = ''EACCES''"
| "errno_name ENOTDIR = ''ENOTDIR''"
| "errno_name EISDIR = ''EISDIR''"
| "errno_name ELOOP = ''ELOOP''"
| "errno_name EMFILE = ''EMFILE''"
| "errno_name EIO = ''EIO''"

text \<open>
  \<^verbatim>\<open>error.message\<close>. For an error of the system the platform's text starts with the code;
  the description, call and path it appends are left out.
\<close>

fun message :: "exn \<Rightarrow> string" where
  "message (Error m) = m"
| "message (SystemError e) = errno_name e"
| "message (TypeError m) = m"
| "message (RangeError m) = m"

type_synonym 'a io = "world \<Rightarrow> (exn + 'a) \<times> world"

definition log_call :: "fs_call \<Rightarrow> world \<Rightarrow> world" where
  "log_call c w = w\<lparr>fs_log := fs_log w @ [c]\<rparr>"

text \<open>\<^verbatim>\<open>readdir(p, { withFileTypes: true })\<close>: the entries of a directory, each with its type.\<close>

definition readdir_withFileTypes :: "string \<Rightarrow> (string \<times> file_type) list io" where
  "readdir_withFileTypes p w =
     (case lookup_path w p of
        Inl e \<Rightarrow> (Inl (SystemError e), log_call (ReaddirCall p (Some e)) w)
      | Inr (Leaf t r) \<Rightarrow> (Inl (SystemError ENOTDIR), log_call (ReaddirCall p (Some ENOTDIR)) w)
      | Inr (BadDir e) \<Rightarrow> (Inl (SystemError e), log_call (ReaddirCall p (Some e)) w)
      | Inr (Dir es) \<Rightarrow>
          (Inr (map (\<lambda>(n, c). (n, node_type c)) es), log_call (ReaddirCall p None) w))"

text \<open>\<^verbatim>\<open>readdir(p)\<close>: the names only.\<close>

definition readdir :: "string \<Rightarrow> string list io" where
  "readdir p w =
     (case lookup_path w p of
        Inl e \<Rightarrow> (Inl (SystemError e), log_call (ReaddirCall p (Some e)) w)
      | Inr (Leaf t r) \<Rightarrow> (Inl (SystemError ENOTDIR), log_call (ReaddirCall p (Some ENOTDIR)) w)
      | Inr (BadDir e) \<Rightarrow> (Inl (SystemError e), log_call (ReaddirCall p (Some e)) w)
      | Inr (Dir es) \<Rightarrow> (Inr (map fst es), log_call (ReaddirCall p None) w))"

text \<open>\<^verbatim>\<open>readFile(p, "utf-8")\<close>: the text of a file.\<close>

definition readFile :: "string \<Rightarrow> string io" where
  "readFile p w =
     (case lookup_path w p of
        Inl e \<Rightarrow> (Inl (SystemError e), log_call (ReadFileCall p (Some e)) w)
      | Inr (Dir es) \<Rightarrow> (Inl (SystemError EISDIR), log_call (ReadFileCall p (Some EISDIR)) w)
      | Inr (BadDir e) \<Rightarrow> (Inl (SystemError EISDIR), log_call (ReadFileCall p (Some EISDIR)) w)
      | Inr (Leaf t (Inl e)) \<Rightarrow> (Inl (SystemError e), log_call (ReadFileCall p (Some e)) w)
      | Inr (Leaf t (Inr text)) \<Rightarrow> (Inr text, log_call (ReadFileCall p None) w))"

section \<open>Values of the requests, and the platform's text functions\<close>

text \<open>
  A request's \<^verbatim>\<open>arguments\<close> hold arbitrary JSON. Numbers are the integers; an object is
  the list of its own properties, the first binding of a key being its value.
\<close>

datatype jsval =
    JUndefined
  | JNull
  | JBool bool
  | JNum int
  | JStr string
  | JArr "jsval list"
  | JObj "(string \<times> jsval) list"

text \<open>\<^verbatim>\<open>v?.key\<close>\<close>

fun optional_get :: "jsval \<Rightarrow> string \<Rightarrow> jsval" where
  "optional_get (JObj kvs) key = (case map_of kvs key of None \<Rightarrow> JUndefined | Some v \<Rightarrow> v)"
| "optional_get v key = JUndefined"

text \<open>\<^verbatim>\<open>v ?? d\<close>\<close>

fun nullish_or :: "jsval \<Rightarrow> jsval \<Rightarrow> jsval" where
  "nullish_or JUndefined d = d"
| "nullish_or JNull d = d"
| "nullish_or v d = v"

text \<open>What \<^verbatim>\<open>v ? a : b\<close> and \<^verbatim>\<open>!v\<close> test.\<close>

fun truthy :: "jsval \<Rightarrow> bool" where
  "truthy JUndefined = False"
| "truthy JNull = False"
| "truthy (JBool b) = b"
| "truthy (JNum n) = (n \<noteq> 0)"
| "truthy (JStr s) = (s \<noteq> [])"
| "truthy (JArr vs) = True"
| "truthy (JObj kvs) = True"

fun decimal :: "nat \<Rightarrow> string" where
  "decimal n =
     (if n < 10 then [''0123456789'' ! n]
      else decimal (n div 10) @ [''0123456789'' ! (n mod 10)])"

fun joinComma :: "string list \<Rightarrow> string" where
  "joinComma [] = []"
| "joinComma [s] = s"
| "joinComma (s # t # ss) = s @ '','' @ joinComma (t # ss)"

text \<open>
  The text a template literal \<^verbatim>\<open>`${v}`\<close> inserts. A number is written with its decimal
  digits (the platform changes to an exponent from \<open>10\<^sup>2\<^sup>1\<close> on).
\<close>

fun js_toString :: "jsval \<Rightarrow> string" where
  "js_toString JUndefined = ''undefined''"
| "js_toString JNull = ''null''"
| "js_toString (JBool b) = (if b then ''true'' else ''false'')"
| "js_toString (JNum n) = (if n < 0 then ''-'' @ decimal (nat (- n)) else decimal (nat n))"
| "js_toString (JStr s) = s"
| "js_toString (JArr vs) =
     joinComma (map (\<lambda>v. if v = JUndefined \<or> v = JNull then [] else js_toString v) vs)"
| "js_toString (JObj kvs) = ''[object Object]''"

text \<open>
  \<^verbatim>\<open>s.toLowerCase()\<close>. The lower-casing of Unicode is the platform's: \<open>lower_case\<close> stands
  for what it makes of a string that is not empty, and the empty string has nothing to
  convert.
\<close>

definition toLowerCase :: "(string \<Rightarrow> string) \<Rightarrow> string \<Rightarrow> string" where
  "toLowerCase lower_case s = (if s = [] then [] else lower_case s)"

text \<open>\<^verbatim>\<open>s.includes(q)\<close>: \<open>q\<close> starts at some position of \<open>s\<close>.\<close>

fun includes_str :: "string \<Rightarrow> string \<Rightarrow> bool" where
  "includes_str [] q = (q = [])"
| "includes_str (c # cs) q = (prefix q (c # cs) \<or> includes_str cs q)"

text \<open>
  \<^verbatim>\<open>JSON.stringify(files, null, 2)\<close> for an array of strings: every string quoted, one to a
  line, indented by two spaces.
\<close>

definition hex4 :: "nat \<Rightarrow> string" where
  "hex4 n = ''00'' @ [''0123456789abcdef'' ! (n div 16 mod 16), ''0123456789abcdef'' ! (n mod 16)]"

definition quoteChar :: "char \<Rightarrow> string" where
  "quoteChar c =
     (let n = (of_char c :: nat) in
      if n = 0x22 then [CHR 0x5C, CHR 0x22]
      else if n = 0x5C then [CHR 0x5C, CHR 0x5C]
      else if n = 0x08 then [CHR 0x5C, CHR ''b'']
      else if n = 0x09 then [CHR 0x5C, CHR ''t'']
      else if n = 0x0A then [CHR 0x5C, CHR ''n'']
      else if n = 0x0C then [CHR 0x5C, CHR ''f'']
      else if n = 0x0D then [CHR 0x5C, CHR ''r'']
      else if n < 0x20 then [CHR 0x5C, CHR ''u''] @ hex4 n
      else [c])"

definition quoteJSONString :: "string \<Rightarrow> string" where
  "quoteJSONString s = [CHR 0x22] @ concat (map quoteChar s) @ [CHR 0x22]"

fun joinLines :: "string list \<Rightarrow> string" where
  "joinLines [] = []"
| "joinLines [s] = s"
| "joinLines (s # t # ss) = s @ [CHR '','', CHR 0x0A] @ ''  '' @ joinLines (t # ss)"

definition JSON_stringify :: "string list \<Rightarrow> string" where
  "JSON_stringify files =
     (if files = [] then ''[]''
      else ''['' @ [CHR 0x0A] @ ''  '' @ joinLines (map quoteJSONString files) @ [CHR 0x0A] @ '']'')"

section \<open>\<^verbatim>\<open>index.mjs\<close>\<close>

definition FILE_PROMPT_NAME :: string where
  "FILE_PROMPT_NAME = ''file-contents''"

definition stderr_write :: "string \<Rightarrow> world \<Rightarrow> world" where
  "stderr_write s w = w\<lparr>stderr := stderr w @ [s]\<rparr>"

text \<open>
  \<^verbatim>\<open>listFilesRecursively(dir)\<close>, with \<^verbatim>\<open>BASE_DIR\<close> as a parameter. \<open>fuel\<close> is the depth of
  calls that is left: the result is \<open>None\<close> when a walk needs more. \<open>listFiles_loop\<close> is
  the \<^verbatim>\<open>for\<close> loop over \<open>items\<close>, \<open>files\<close> the array it pushes to. The entries of a
  sub-directory are pushed with one call \<^verbatim>\<open>files.push(...sub)\<close>, which the platform refuses
  with a range error when \<open>sub\<close> has more elements than a call can spread.
\<close>

fun listFilesRecursively ::
    "nat \<Rightarrow> string \<Rightarrow> string \<Rightarrow> world \<Rightarrow> ((exn + string list) \<times> world) option"
  and listFiles_loop ::
    "nat \<Rightarrow> string \<Rightarrow> string \<Rightarrow> (string \<times> file_type) list \<Rightarrow> string list \<Rightarrow> world \<Rightarrow>
      ((exn + string list) \<times> world) option"
where
  "listFilesRecursively 0 BASE_DIR dir w = None"
| "listFilesRecursively (Suc fuel) BASE_DIR dir w =
     (case readdir_withFileTypes dir w of
        (Inl e, w') \<Rightarrow> Some (Inl e, w')
      | (Inr items, w') \<Rightarrow> listFiles_loop fuel BASE_DIR dir items [] w')"
| "listFiles_loop fuel BASE_DIR dir [] files w = Some (Inr files, w)"
| "listFiles_loop fuel BASE_DIR dir (item # items) files w =
     (let fullPath = join dir (fst item) in
      if snd item = DirectoryT then
        (case listFilesRecursively fuel BASE_DIR fullPath w of
           None \<Rightarrow> None
         | Some (Inl e, w') \<Rightarrow> Some (Inl e, w')
         | Some (Inr sub, w') \<Rightarrow>
             if max_spread w' < length sub
             then Some (Inl (RangeError ''Maximum call stack size exceeded''), w')
             else listFiles_loop fuel BASE_DIR dir items (files @ sub) w')
      else
        listFiles_loop fuel BASE_DIR dir items (files @ [relative (cwd w) BASE_DIR fullPath]) w)"

text \<open>The \<^verbatim>\<open>params\<close> of a call-tool and of a get-prompt request.\<close>

record params =
  name :: string
  arguments :: jsval

text \<open>A resource of the list-resources result: \<^verbatim>\<open>{ uri, mimeType, name }\<close>.\<close>

datatype resource = Resource (uri: string) (mimeType: string) (resource_name: string)

text \<open>The list-resources handler.\<close>

definition list_resources ::
    "nat \<Rightarrow> string \<Rightarrow> world \<Rightarrow> ((exn + resource list) \<times> world) option" where
  "list_resources fuel BASE_DIR w =
     (case listFilesRecursively fuel BASE_DIR BASE_DIR w of
        None \<Rightarrow> None
      | Some (Inl e, w') \<Rightarrow> Some (Inl e, w')
      | Some (Inr files, w') \<Rightarrow>
          Some (Inr (map (\<lambda>file. Resource (''file://'' @ join BASE_DIR file) ''text/plain'' file)
                      files), w'))"

text \<open>
  The read-resource handler. \<open>pathname\<close> is \<^verbatim>\<open>new URL(uri).pathname\<close> of the platform,
  \<open>None\<close> where the constructor throws. An entry of \<^verbatim>\<open>contents\<close> is
  \<^verbatim>\<open>{ uri, mimeType, text }\<close>.
\<close>

datatype resource_contents = TextResourceContents string string string

definition read_resource ::
    "(string \<Rightarrow> string option) \<Rightarrow> string \<Rightarrow> resource_contents list io" where
  "read_resource pathname request_uri w =
     (case pathname request_uri of
        None \<Rightarrow> (Inl (TypeError ''Invalid URL''), w)
      | Some filePath \<Rightarrow>
          (case readFile filePath w of
             (Inr contents, w') \<Rightarrow>
               (Inr [TextResourceContents request_uri ''text/plain'' contents], w')
           | (Inl error, w') \<Rightarrow>
               (Inl (Error (''Failed to read file: '' @ message error)), w')))"

text \<open>
  \<^verbatim>\<open>join(BASE_DIR, path)\<close> on a value of a request: the platform throws a type error when
  \<open>path\<close> is not a string (its text goes on to say what it received).
\<close>

fun join_value :: "string \<Rightarrow> jsval \<Rightarrow> exn + string" where
  "join_value a (JStr b) = Inr (join a b)"
| "join_value a v = Inl (TypeError (''The '' @ [CHR 0x22] @ ''path'' @ [CHR 0x22] @
     '' argument must be of type string''))"

text \<open>The call-tool handler. An entry of \<^verbatim>\<open>content\<close> is \<^verbatim>\<open>{ type: "text", text }\<close>.\<close>

datatype tool_content = TextContent string

definition call_tool ::
    "nat \<Rightarrow> string \<Rightarrow> params \<Rightarrow> world \<Rightarrow> ((exn + tool_content list) \<times> world) option" where
  "call_tool fuel BASE_DIR request w =
     (if name request = ''list-files'' then
        (let recursive = nullish_or (optional_get (arguments request) ''recursive'') (JBool False) in
         case (if truthy recursive then listFilesRecursively fuel BASE_DIR BASE_DIR w
               else Some (readdir BASE_DIR w)) of
           None \<Rightarrow> None
         | Some (Inr files, w') \<Rightarrow> Some (Inr [TextContent (JSON_stringify files)], w')
         | Some (Inl error, w') \<Rightarrow>
             Some (Inl (Error (''Failed to list files: '' @ message error)), w'))
      else if name request = ''read-file'' then
        (let path = optional_get (arguments request) ''path'' in
         if \<not> truthy path then Some (Inl (Error ''Path is required''), w)
         else
           (case join_value BASE_DIR path of
              Inl error \<Rightarrow> Some (Inl (Error (''Failed to read file: '' @ message error)), w)
            | Inr file \<Rightarrow>
                (case readFile file w of
                   (Inr contents, w') \<Rightarrow> Some (Inr [TextContent contents], w')
                 | (Inl error, w') \<Rightarrow>
                     Some (Inl (Error (''Failed to read file: '' @ message error)), w'))))
      else Some (Inl (Error ''Tool not found''), w))"

text \<open>
  The completion handler, with the lower-casing of the platform as a parameter.
  \<^verbatim>\<open>request.params.ref\<close> names a prompt or a resource; \<^verbatim>\<open>ref.name\<close> is undefined for a
  resource.
\<close>

datatype reference = PromptRef string | ResourceRef string

fun ref_name :: "reference \<Rightarrow> jsval" where
  "ref_name (PromptRef n) = JStr n"
| "ref_name (ResourceRef u) = JUndefined"

record complete_params =
  ref :: reference
  argument_name :: string
  argument_value :: string

definition complete ::
    "(string \<Rightarrow> string) \<Rightarrow> nat \<Rightarrow> string \<Rightarrow> complete_params \<Rightarrow> world \<Rightarrow>
      ((exn + string list) \<times> world) option" where
  "complete lower_case fuel BASE_DIR request w0 =
     (let w = stderr_write (''Handling completions/complete request'' @ [CHR 0x0A]) w0 in
      if ref_name (ref request) = JStr FILE_PROMPT_NAME then
        (let fileQuery = argument_value request in
         case listFilesRecursively fuel BASE_DIR BASE_DIR w of
           None \<Rightarrow> None
         | Some (Inl e, w') \<Rightarrow> Some (Inl e, w')
         | Some (Inr files, w') \<Rightarrow>
             Some (Inr (filter (\<lambda>file. includes_str (toLowerCase lower_case file)
                                                           (toLowerCase lower_case fileQuery))
                         files), w'))
      else Some (Inl (Error ''unknown prompt''), w))"

text \<open>
  The get-prompt handler. The result is \<^verbatim>\<open>{ description, messages }\<close> with one message of
  role \<^verbatim>\<open>user\<close> and of type \<^verbatim>\<open>text\<close>.
\<close>

datatype prompt_message = UserText string

datatype prompt_result = PromptResult (description: string) (messages: "prompt_message list")

definition get_prompt :: "string \<Rightarrow> params \<Rightarrow> prompt_result io" where
  "get_prompt BASE_DIR request w0 =
     (let w = stderr_write (''Handling prompts/get request'' @ [CHR 0x0A]) w0 in
      if name request = FILE_PROMPT_NAME then
        (let path = optional_get (arguments request) ''path'' in
         case path of
           JStr p \<Rightarrow>
             (if length p = 0 then (Inl (Error (''Invalid path: '' @ js_toString path)), w)
              else
                (case readFile (join BASE_DIR p) w of
                   (Inr contents, w') \<Rightarrow>
                     (Inr (PromptResult (''Contents of '' @ js_toString path) [UserText contents]), w')
                 | (Inl error, w') \<Rightarrow>
                     (Inl (Error (''Failed to read file: '' @ message error)), w')))
         | _ \<Rightarrow> (Inl (Error (''Invalid path: '' @ js_toString path)), w))
      else
        (Inl (Error (''Prompt '' @ [CHR 0x27] @ name request @ [CHR 0x27] @ '' not implemented'')), w))"

section \<open>Example worlds\<close>

text \<open>
  The lower-casing of the letters A to Z, which is what every platform's \<^verbatim>\<open>toLowerCase\<close>
  does to a string of ASCII characters.
\<close>

definition toLowerChar :: "char \<Rightarrow> char" where
  "toLowerChar c =
     (let n = (of_char c :: nat) in if 65 \<le> n \<and> n \<le> 90 then char_of (n + 32) else c)"

definition demo_base :: node where
  "demo_base =
     Dir [(''a.txt'', Leaf RegularT (Inr ''hello'')),
          (''src'', Dir [(''Foo.txt'', Leaf RegularT (Inr ''foo'')),
                         (''baz.txt'', Leaf RegularT (Inr ''baz''))]),
          (''bar'', Dir [(''foobar.md'', Leaf RegularT (Inr ''bar''))])]"

definition demo_root :: node where
  "demo_root =
     Dir [(''home'', Dir [(''u'', demo_base)]),
          (''etc'', Dir [(''passwd'', Leaf RegularT (Inr ''root''))])]"

definition demo_world :: world where
  "demo_world =
     \<lparr>root = demo_root, cwd = ''/home/u'', fs_log = [], stderr = [],
      max_spread = 1000\<rparr>"



definition locked_base :: node where
  "locked_base =
     Dir [(''a.txt'', Leaf RegularT (Inr ''hello'')),
          (''locked'', BadDir EACCES),
          (''z.txt'', Leaf RegularT (Inr ''bye''))]"

definition locked_world :: world where
  "locked_world =
     \<lparr>root = Dir [(''srv'', locked_base)], cwd = ''/srv'', fs_log = [], stderr = [],
      max_spread = 1000\<rparr>"

text \<open>
  A lower-casing that follows Unicode on the letters it knows: A to Z, the Greek capital
  alpha, and the Greek capital sigma, which becomes the final sigma after a letter at the
  end of a word and the small sigma elsewhere. Strings are in UTF-8: alpha is
  \<^verbatim>\<open>CE 91\<close> (small: \<^verbatim>\<open>CE B1\<close>), sigma \<^verbatim>\<open>CE A3\<close> (small: \<^verbatim>\<open>CF 83\<close>, final: \<^verbatim>\<open>CF 82\<close>). \<open>after_letter\<close>
  tells whether the character before is a letter.
\<close>

definition starts_with_letter :: "string \<Rightarrow> bool" where
  "starts_with_letter s =
     (case s of
        [] \<Rightarrow> False
      | c # _ \<Rightarrow>
          (let n = (of_char c :: nat) in
           (65 \<le> n \<and> n \<le> 90) \<or> (97 \<le> n \<and> n \<le> 122) \<or> n = 0xCE \<or> n = 0xCF))"

fun lower_greek :: "bool \<Rightarrow> string \<Rightarrow> string" where
  "lower_greek after_letter [] = []"
| "lower_greek after_letter [c] = [toLowerChar c]"
| "lower_greek after_letter (c # d # cs) =
     (if c = CHR 0xCE \<and> d = CHR 0xA3 then
        (if after_letter \<and> \<not> starts_with_letter cs then [CHR 0xCF, CHR 0x82]
         else [CHR 0xCF, CHR 0x83]) @ lower_greek True cs
      else if c = CHR 0xCE \<and> d = CHR 0x91 then [CHR 0xCE, CHR 0xB1] @ lower_greek True cs
      else toLowerChar c # lower_greek (starts_with_letter [c]) (d # cs))"

text \<open>A directory with one file, named by a capital alpha and a capital sigma.\<close>

definition alpha_sigma :: string where
  "alpha_sigma = [CHR 0xCE, CHR 0x91, CHR 0xCE, CHR 0xA3]"

definition sigma :: string where
  "sigma = [CHR 0xCE, CHR 0xA3]"

definition greek_world :: world where
  "greek_world =
     \<lparr>root = Dir [(''srv'', Dir [(alpha_sigma, Leaf RegularT (Inr ''hello''))])], cwd = ''/srv'',
      fs_log = [], stderr = [], max_spread = 1000\<rparr>"

text \<open>A directory with one file, whose name has the character that ends the path of a URL.\<close>

definition hash_dir :: node where
  "hash_dir = Dir [(''a#b.txt'', Leaf RegularT (Inr ''secret''))]"

definition hash_world :: world where
  "hash_world =
     \<lparr>root = Dir [(''srv'', hash_dir)], cwd = ''/srv'', fs_log = [], stderr = [],
      max_spread = 1000\<rparr>"



section \<open>Notions of the specification\<close>

text \<open>
  A name a directory can list: not empty, without a separator, and neither \<^verbatim>\<open>.\<close> nor
  \<^verbatim>\<open>..\<close> (the system never lists these two).
\<close>

definition valid_name :: "string \<Rightarrow> bool" where
  "valid_name n = (n \<noteq> [] \<and> CHR ''/'' \<notin> set n \<and> n \<noteq> ''.'' \<and> n \<noteq> ''..'')"

text \<open>
  A well-formed tree: the names of a directory are valid and differ from each other, and
  an entry that is not a directory does not have the type of one.
\<close>

fun wf_node :: "node \<Rightarrow> bool" where
  "wf_node (Leaf t r) = (t \<noteq> DirectoryT)"
| "wf_node (Dir es) =
     (distinct (map fst es) \<and> (\<forall>e \<in> set es. valid_name (fst e) \<and> wf_node (snd e)))"
| "wf_node (BadDir e) = True"

text \<open>The depth of nesting of a tree: a walk of it needs more fuel than that.\<close>

fun height :: "node \<Rightarrow> nat" where
  "height (Leaf t r) = 0"
| "height (Dir es) = Suc (foldr (\<lambda>e m. max (height (snd e)) m) es 0)"
| "height (BadDir e) = 0"

text \<open>The node reached from a directory by a list of names, if there is one.\<close>

fun descend :: "node \<Rightarrow> string list \<Rightarrow> node option" where
  "descend n [] = Some n"
| "descend (Dir es) (s # ss) = (case map_of es s of None \<Rightarrow> None | Some c \<Rightarrow> descend c ss)"
| "descend n (s # ss) = None"

text \<open>The absolute path made of a list of names.\<close>

definition absolute_path :: "string list \<Rightarrow> string" where
  "absolute_path segs = ''/'' @ joinSep segs"

text \<open>
  "The files reachable from the base directory, as paths relative to the base directory":
  every entry that is not a directory, and the regular files among them.
\<close>

definition entries_below :: "node \<Rightarrow> string set" where
  "entries_below base = {joinSep segs | segs t r. descend base segs = Some (Leaf t r)}"


text \<open>
  A tree is oversized for a platform when some directory below its root holds, at any
  depth, more entries than one call can spread.
\<close>

definition oversized :: "nat \<Rightarrow> node \<Rightarrow> bool" where
  "oversized limit base =
     (\<exists>segs d. segs \<noteq> [] \<and> descend base segs = Some d \<and> node_type d = DirectoryT \<and>
        limit < card (entries_below d))"

text \<open>
  The entries below a directory that are not directories, as lists of names from that
  directory, in the order of a depth-first traversal; or the error of the first directory
  that cannot be listed.
\<close>

fun leaf_paths :: "node \<Rightarrow> errno + string list list"
  and entries_paths :: "(string \<times> node) list \<Rightarrow> errno + string list list" where
  "leaf_paths (Leaf t r) = Inl ENOTDIR"
| "leaf_paths (Dir es) = entries_paths es"
| "leaf_paths (BadDir e) = Inl e"
| "entries_paths [] = Inr []"
| "entries_paths ((n, c) # es) =
     (if node_type c = DirectoryT then
        (case leaf_paths c of
           Inl e \<Rightarrow> Inl e
         | Inr sub \<Rightarrow>
             (case entries_paths es of
                Inl e \<Rightarrow> Inl e
              | Inr rest \<Rightarrow> Inr (map ((#) n) sub @ rest)))
      else
        (case entries_paths es of
           Inl e \<Rightarrow> Inl e
         | Inr rest \<Rightarrow> Inr ([n] # rest)))"

text \<open>
  The same traversal on a platform that spreads at most \<open>limit\<close> arguments: the result of
  a walk, entries as lists of names.
\<close>

fun walk_result :: "nat \<Rightarrow> node \<Rightarrow> exn + string list list"
  and entries_result :: "nat \<Rightarrow> (string \<times> node) list \<Rightarrow> exn + string list list" where
  "walk_result limit (Leaf t r) = Inl (SystemError ENOTDIR)"
| "walk_result limit (Dir es) = entries_result limit es"
| "walk_result limit (BadDir e) = Inl (SystemError e)"
| "entries_result limit [] = Inr []"
| "entries_result limit ((n, c) # es) =
     (if node_type c = DirectoryT then
        (case walk_result limit c of
           Inl e \<Rightarrow> Inl e
         | Inr sub \<Rightarrow>
             if limit < length sub then Inl (RangeError ''Maximum call stack size exceeded'')
             else
               (case entries_result limit es of
                  Inl e \<Rightarrow> Inl e
                | Inr rest \<Rightarrow> Inr (map ((#) n) sub @ rest)))
      else
        (case entries_result limit es of
           Inl e \<Rightarrow> Inl e
         | Inr rest \<Rightarrow> Inr ([n] # rest)))"

text \<open>
  The outcome a logged call had, and the shape of the calls a walk with result \<open>r\<close> adds
  to the log: all of them succeed, but for the last one of a walk that fails on a read.
\<close>

fun call_errno :: "fs_call \<Rightarrow> errno option" where
  "call_errno (ReaddirCall p oc) = oc"
| "call_errno (ReadFileCall p oc) = oc"

definition trace_of :: "(exn + string list) \<Rightarrow> fs_call list \<Rightarrow> bool" where
  "trace_of r new =
     (case r of
        Inr files \<Rightarrow> list_all (\<lambda>c. call_errno c = None) new
      | Inl e \<Rightarrow>
          ((\<exists>m. e = RangeError m) \<and> list_all (\<lambda>c. call_errno c = None) new) \<or>
          (\<exists>oks p en. new = oks @ [ReaddirCall p (Some en)] \<and> e = SystemError en \<and>
             list_all (\<lambda>c. call_errno c = None) oks))"

definition readdir_outcome :: "node \<Rightarrow> errno option" where
  "readdir_outcome d = (case d of Leaf t r \<Rightarrow> Some ENOTDIR | Dir es \<Rightarrow> None | BadDir e \<Rightarrow> Some e)"

text \<open>
  "The path contains the query as a case-insensitive substring", for a lower-casing \<open>f\<close>
  of single characters: some substring of the path is the query, character for
  character, up to their case.
\<close>

definition contains_ignoring_case :: "(char \<Rightarrow> char) \<Rightarrow> string \<Rightarrow> string \<Rightarrow> bool" where
  "contains_ignoring_case f path q =
     (\<exists>before mid after. path = before @ mid @ after \<and>
        list_all2 (\<lambda>a b. f a = f b) mid q)"

text \<open>
  Reading back what \<open>quoteJSONString\<close> writes: the characters up to the closing quote,
  with every escape undone, and what follows the quote.
\<close>

definition hexval :: "char \<Rightarrow> nat" where
  "hexval c = length (takeWhile (\<lambda>d. d \<noteq> c) ''0123456789abcdef'')"

definition unescape :: "char \<Rightarrow> char" where
  "unescape d =
     (if d = CHR ''b'' then CHR 0x08
      else if d = CHR ''t'' then CHR 0x09
      else if d = CHR ''n'' then CHR 0x0A
      else if d = CHR ''f'' then CHR 0x0C
      else if d = CHR ''r'' then CHR 0x0D
      else d)"

fun unquoteChars :: "string \<Rightarrow> string \<Rightarrow> (string \<times> string) option" where
  "unquoteChars acc [] = None"
| "unquoteChars acc (c # cs) =
     (if c = CHR 0x22 then Some (acc, cs)
      else if c = CHR 0x5C then
        (case cs of
           [] \<Rightarrow> None
         | d # ds \<Rightarrow>
             if d = CHR ''u'' then
               (case ds of
                  a # b # h # l # rest \<Rightarrow>
                    unquoteChars (acc @ [char_of (16 * hexval h + hexval l)]) rest
                | _ \<Rightarrow> None)
             else unquoteChars (acc @ [unescape d]) ds)
      else unquoteChars (acc @ [c]) cs)"

text \<open>
  Two facts about the platform's URL parser, for a function \<open>pathname\<close> that stands for
  \<^verbatim>\<open>new URL(uri).pathname\<close>. The parser ends the path of every URL at the first \<^verbatim>\<open>#\<close>, so
  that no pathname has this character. And it leaves the path of a \<^verbatim>\<open>file:\<close> URL as it is
  when the path is absolute and made of names of unreserved characters (letters, digits,
  \<^verbatim>\<open>-\<close>, \<^verbatim>\<open>.\<close>, \<^verbatim>\<open>_\<close>, \<^verbatim>\<open>~\<close>) other than \<^verbatim>\<open>.\<close> and \<^verbatim>\<open>..\<close>.
\<close>

definition never_yields :: "char \<Rightarrow> (string \<Rightarrow> string option) \<Rightarrow> bool" where
  "never_yields c pathname = (\<forall>u p. pathname u = Some p \<longrightarrow> c \<notin> set p)"

definition unreserved_name :: "string \<Rightarrow> bool" where
  "unreserved_name n =
     (valid_name n \<and>
      set n \<subseteq> set ''ABCDEFGHIJKLMNOPQRSTUVWXYZabcdefghijklmnopqrstuvwxyz0123456789-._~'')"

definition keeps_file_paths :: "(string \<Rightarrow> string option) \<Rightarrow> bool" where
  "keeps_file_paths pathname =
     (\<forall>names. list_all unreserved_name names \<longrightarrow>
        pathname (''file://'' @ absolute_path names) = Some (absolute_path names))"

text \<open>
  The parser on the URLs it has nothing to do for: \<^verbatim>\<open>file://\<close> followed by an absolute path
  of such names, whose pathname is that path. This function is defined on these URLs
  only.
\<close>

definition file_url_pathname :: "string \<Rightarrow> string option" where
  "file_url_pathname u =
     (if prefix ''file:///'' u \<and>
         (drop 8 u = [] \<or> list_all unreserved_name (splitSep (drop 8 u)))
      then Some (drop 7 u) else None)"

section \<open>The world a call leaves behind\<close>

lemma log_call_fields [simp]:
  "root (log_call c w) = root w" "cwd (log_call c w) = cwd w"
  "stderr (log_call c w) = stderr w" "fs_log (log_call c w) = fs_log w @ [c]"
  "max_spread (log_call c w) = max_spread w"
  by (simp_all add: log_call_def)

lemma stderr_write_fields [simp]:
  "root (stderr_write s w) = root w" "cwd (stderr_write s w) = cwd w"
  "stderr (stderr_write s w) = stderr w @ [s]" "fs_log (stderr_write s w) = fs_log w"
  "max_spread (stderr_write s w) = max_spread w"
  by (simp_all add: stderr_write_def)

lemma readdir_withFileTypes_world:
  "\<exists>oc. snd (readdir_withFileTypes p w) = log_call (ReaddirCall p oc) w"
  by (auto simp add: readdir_withFileTypes_def split: sum.splits node.splits)

lemma readdir_world:
  "\<exists>oc. snd (readdir p w) = log_call (ReaddirCall p oc) w"
  by (auto simp add: readdir_def split: sum.splits node.splits)

lemma readFile_world:
  "\<exists>oc. snd (readFile p w) = log_call (ReadFileCall p oc) w"
  by (auto simp add: readFile_def split: sum.splits node.splits)

lemma walk_preserves:
  "listFilesRecursively fuel B dir w = Some (r, w') \<Longrightarrow>
     root w' = root w \<and> cwd w' = cwd w \<and> stderr w' = stderr w \<and>
     max_spread w' = max_spread w"
  "listFiles_loop fuel B dir items files w = Some (r, w') \<Longrightarrow>
     root w' = root w \<and> cwd w' = cwd w \<and> stderr w' = stderr w \<and>
     max_spread w' = max_spread w"
proof (induction fuel B dir w and fuel B dir items files w arbitrary: r w' and r w'
    rule: listFilesRecursively_listFiles_loop.induct)
  case (1 B dir w)
  then show ?case by simp
next
  case (2 fuel B dir w)
  obtain x w1 where rd: "readdir_withFileTypes dir w = (x, w1)" by (cases "readdir_withFileTypes dir w")
  from readdir_withFileTypes_world[of dir w] rd
  have w1: "root w1 = root w \<and> cwd w1 = cwd w \<and> stderr w1 = stderr w \<and>
      max_spread w1 = max_spread w" by auto
  show ?case
  proof (cases x)
    case (Inl e)
    with "2.prems" rd w1 show ?thesis by auto
  next
    case (Inr items)
    with "2.prems" rd have "listFiles_loop fuel B dir items [] w1 = Some (r, w')" by simp
    from "2.IH"[OF rd[symmetric] Inr this] w1 show ?thesis by simp
  qed
next
  case (3 fuel B dir files w)
  then show ?case by simp
next
  case (4 fuel B dir item items files w)
  show ?case
  proof (cases "snd item = DirectoryT")
    case True
    show ?thesis
    proof (cases "listFilesRecursively fuel B (join dir (fst item)) w")
      case None
      with "4.prems" True show ?thesis by simp
    next
      case (Some a)
      obtain x w1 where a: "a = (x, w1)" by (cases a)
      from "4.IH"(1)[OF refl True] Some a
      have w1: "root w1 = root w \<and> cwd w1 = cwd w \<and> stderr w1 = stderr w \<and>
      max_spread w1 = max_spread w" by simp
      show ?thesis
      proof (cases x)
        case (Inl e)
        with "4.prems" True Some a w1 show ?thesis by auto
      next
        case (Inr sub)
        show ?thesis
        proof (cases "max_spread w1 < length sub")
          case big: True
          with "4.prems" True Some a Inr w1 show ?thesis by auto
        next
          case small: False
          with "4.prems" True Some a Inr
          have "listFiles_loop fuel B dir items (files @ sub) w1 = Some (r, w')" by simp
          from "4.IH"(2)[OF refl True Some[unfolded a] refl Inr small this] w1
          show ?thesis by simp
        qed
      qed
    qed
  next
    case False
    with "4.prems" have "listFiles_loop fuel B dir items
        (files @ [relative (cwd w) B (join dir (fst item))]) w = Some (r, w')" by simp
    from "4.IH"(3)[OF refl False this] show ?thesis .
  qed
qed

section \<open>Substrings\<close>

lemma includes_str_sublist: "includes_str s q = sublist q s"
  by (induction s) (simp_all add: sublist_Cons_right)

lemma includes_str_empty [simp]: "includes_str s []"
  by (simp add: includes_str_sublist)

lemma sublist_map_iff:
  "sublist (map f q) (map f p) =
     (\<exists>before mid after. p = before @ mid @ after \<and> list_all2 (\<lambda>a b. f a = f b) mid q)"
proof
  assume "sublist (map f q) (map f p)"
  then obtain ps ss where "map f p = ps @ map f q @ ss" by (auto simp: sublist_def)
  then obtain before rest where p: "p = before @ rest" and r: "map f rest = map f q @ ss"
    by (metis map_eq_append_conv)
  from r obtain mid after where rest: "rest = mid @ after" and mid: "map f mid = map f q"
    by (metis map_eq_append_conv)
  from mid have "list_all2 (\<lambda>a b. f a = f b) mid q"
    by (simp add: list_all2_conv_all_nth list_eq_iff_nth_eq)
  with p rest show "\<exists>before mid after. p = before @ mid @ after \<and> list_all2 (\<lambda>a b. f a = f b) mid q"
    by blast
next
  assume "\<exists>before mid after. p = before @ mid @ after \<and> list_all2 (\<lambda>a b. f a = f b) mid q"
  then obtain before mid after where p: "p = before @ mid @ after"
    and mid: "list_all2 (\<lambda>a b. f a = f b) mid q" by blast
  from mid have "map f mid = map f q"
    by (induction mid q rule: list_all2_induct) simp_all
  with p show "sublist (map f q) (map f p)"
    by (auto simp: sublist_def)
qed

lemma toLowerCase_map: "toLowerCase (map f) s = map f s"
  by (simp add: toLowerCase_def)

lemma toLowerCase_Nil [simp]: "toLowerCase lower_case [] = []"
  by (simp add: toLowerCase_def)

lemma includes_lower_iff:
  "includes_str (toLowerCase (map f) path) (toLowerCase (map f) q) = contains_ignoring_case f path q"
  by (simp add: includes_str_sublist toLowerCase_map contains_ignoring_case_def sublist_map_iff)

lemma complete_file_prompt:
  "ref request = PromptRef FILE_PROMPT_NAME \<Longrightarrow>
     complete lower_case fuel BASE_DIR request w =
       (case listFilesRecursively fuel BASE_DIR BASE_DIR
               (stderr_write (''Handling completions/complete request'' @ [CHR 0x0A]) w) of
          None \<Rightarrow> None
        | Some (Inl e, w') \<Rightarrow> Some (Inl e, w')
        | Some (Inr files, w') \<Rightarrow>
            Some (Inr (filter (\<lambda>fl. includes_str (toLowerCase lower_case fl)
                                      (toLowerCase lower_case (argument_value request)))
                        files), w'))"
  by (simp add: complete_def Let_def split: option.splits sum.splits prod.splits)

section \<open>The walk of the example filesystem\<close>

lemma demo_walk:
  "listFilesRecursively 3 ''/home/u'' ''/home/u'' demo_world =
     Some (Inr [''a.txt'', ''src/Foo.txt'', ''src/baz.txt'', ''bar/foobar.md''],
           demo_world\<lparr>fs_log := [ReaddirCall ''/home/u'' None, ReaddirCall ''/home/u/src'' None,
                                   ReaddirCall ''/home/u/bar'' None]\<rparr>)"
  by code_simp

lemma demo_walk_complete:
  "listFilesRecursively 3 ''/home/u'' ''/home/u''
     (stderr_write (''Handling completions/complete request'' @ [CHR 0x0A]) demo_world) =
     Some (Inr [''a.txt'', ''src/Foo.txt'', ''src/baz.txt'', ''bar/foobar.md''],
           demo_world\<lparr>fs_log := [ReaddirCall ''/home/u'' None, ReaddirCall ''/home/u/src'' None,
                                   ReaddirCall ''/home/u/bar'' None],
                      stderr := [''Handling completions/complete request'' @ [CHR 0x0A]]\<rparr>)"
  by code_simp

section \<open>The calls a walk makes\<close>

lemma readdir_withFileTypes_Inr:
  "readdir_withFileTypes p w = (Inr items, w') \<Longrightarrow> w' = log_call (ReaddirCall p None) w"
  by (auto simp: readdir_withFileTypes_def split: sum.splits node.splits)

lemma readdir_withFileTypes_Inl:
  "readdir_withFileTypes p w = (Inl e, w') \<Longrightarrow>
     \<exists>en. e = SystemError en \<and> w' = log_call (ReaddirCall p (Some en)) w"
  by (auto simp: readdir_withFileTypes_def split: sum.splits node.splits)

lemma trace_of_append:
  "list_all (\<lambda>c. call_errno c = None) xs \<Longrightarrow> trace_of r ys \<Longrightarrow> trace_of r (xs @ ys)"
proof (cases r)
  case (Inr files)
  assume "list_all (\<lambda>c. call_errno c = None) xs" "trace_of r ys"
  with Inr show ?thesis by (simp add: trace_of_def)
next
  case (Inl e)
  assume xs: "list_all (\<lambda>c. call_errno c = None) xs" and ys: "trace_of r ys"
  from ys Inl consider
    (range) m where "e = RangeError m" "list_all (\<lambda>c. call_errno c = None) ys"
  | (read) oks p en where "ys = oks @ [ReaddirCall p (Some en)]" "e = SystemError en"
      "list_all (\<lambda>c. call_errno c = None) oks"
    by (auto simp: trace_of_def)
  then show ?thesis
  proof cases
    case range
    with xs Inl show ?thesis by (simp add: trace_of_def)
  next
    case read
    with xs have "xs @ ys = (xs @ oks) @ [ReaddirCall p (Some en)]"
      and "list_all (\<lambda>c. call_errno c = None) (xs @ oks)" by simp_all
    with read(2) Inl show ?thesis unfolding trace_of_def by (simp only: sum.case) blast
  qed
qed

lemma walk_trace:
  "listFilesRecursively fuel B dir w = Some (r, w') \<Longrightarrow>
     \<exists>new. fs_log w' = fs_log w @ new \<and> trace_of r new"
  "listFiles_loop fuel B dir items files w = Some (r, w') \<Longrightarrow>
     \<exists>new. fs_log w' = fs_log w @ new \<and> trace_of r new"
proof (induction fuel B dir w and fuel B dir items files w arbitrary: r w' and r w'
    rule: listFilesRecursively_listFiles_loop.induct)
  case (1 B dir w)
  then show ?case by simp
next
  case (2 fuel B dir w)
  obtain x w1 where rd: "readdir_withFileTypes dir w = (x, w1)"
    by (cases "readdir_withFileTypes dir w")
  show ?case
  proof (cases x)
    case (Inl e)
    with "2.prems" rd have r: "r = Inl e" and w': "w' = w1" by simp_all
    from readdir_withFileTypes_Inl[OF rd[unfolded Inl]] obtain en where
      "e = SystemError en" "w1 = log_call (ReaddirCall dir (Some en)) w" by blast
    with r w' have "fs_log w' = fs_log w @ [ReaddirCall dir (Some en)]"
      and "trace_of r [ReaddirCall dir (Some en)]"
      by (simp_all add: trace_of_def)
    then show ?thesis by blast
  next
    case (Inr items)
    with "2.prems" rd have loop: "listFiles_loop fuel B dir items [] w1 = Some (r, w')" by simp
    from "2.IH"[OF rd[symmetric] Inr loop] obtain new where
      new: "fs_log w' = fs_log w1 @ new" "trace_of r new" by blast
    from readdir_withFileTypes_Inr[OF rd[unfolded Inr]]
    have "fs_log w1 = fs_log w @ [ReaddirCall dir None]" by simp
    with new have "fs_log w' = fs_log w @ ([ReaddirCall dir None] @ new)" by simp
    moreover from new(2) have "trace_of r ([ReaddirCall dir None] @ new)"
      by (intro trace_of_append) simp_all
    ultimately show ?thesis by blast
  qed
next
  case (3 fuel B dir files w)
  then show ?case by (auto simp: trace_of_def)
next
  case (4 fuel B dir item items files w)
  show ?case
  proof (cases "snd item = DirectoryT")
    case True
    show ?thesis
    proof (cases "listFilesRecursively fuel B (join dir (fst item)) w")
      case None
      with "4.prems" True show ?thesis by simp
    next
      case (Some a)
      obtain x w1 where a: "a = (x, w1)" by (cases a)
      from "4.IH"(1)[OF refl True] Some a obtain new1 where
        new1: "fs_log w1 = fs_log w @ new1" "trace_of x new1" by blast
      show ?thesis
      proof (cases x)
        case (Inl e)
        with "4.prems" True Some a have "r = x" "w' = w1" by simp_all
        with new1 show ?thesis by blast
      next
        case (Inr sub)
        from new1(2) Inr have ok1: "list_all (\<lambda>c. call_errno c = None) new1"
          by (simp add: trace_of_def)
        show ?thesis
        proof (cases "max_spread w1 < length sub")
          case big: True
          with "4.prems" True Some a Inr
          have "r = Inl (RangeError ''Maximum call stack size exceeded'')" "w' = w1" by simp_all
          with new1(1) ok1 have "fs_log w' = fs_log w @ new1" "trace_of r new1"
            by (simp_all add: trace_of_def)
          then show ?thesis by blast
        next
          case small: False
          with "4.prems" True Some a Inr
          have "listFiles_loop fuel B dir items (files @ sub) w1 = Some (r, w')" by simp
          from "4.IH"(2)[OF refl True Some[unfolded a] refl Inr small this] obtain new2 where
            new2: "fs_log w' = fs_log w1 @ new2" "trace_of r new2" by blast
          from ok1 new2(2) have "trace_of r (new1 @ new2)" by (rule trace_of_append)
          moreover from new1(1) new2(1) have "fs_log w' = fs_log w @ (new1 @ new2)" by simp
          ultimately show ?thesis by blast
        qed
      qed
    qed
  next
    case False
    with "4.prems" have "listFiles_loop fuel B dir items
        (files @ [relative (cwd w) B (join dir (fst item))]) w = Some (r, w')" by simp
    from "4.IH"(3)[OF refl False this] show ?thesis .
  qed
qed

section \<open>Paths made of valid names\<close>

lemma splitSep_not_Nil [simp]: "splitSep s \<noteq> []"
  by (induction s) (auto split: list.splits)

lemma splitSep_no_sep: "CHR ''/'' \<notin> set s \<Longrightarrow> splitSep s = [s]"
  by (induction s) auto

lemma splitSep_append_sep:
  "CHR ''/'' \<notin> set a \<Longrightarrow> splitSep (a @ CHR ''/'' # b) = a # splitSep b"
  by (induction a) auto

lemma splitSep_joinSep:
  "segs \<noteq> [] \<Longrightarrow> \<forall>s \<in> set segs. CHR ''/'' \<notin> set s \<Longrightarrow> splitSep (joinSep segs) = segs"
proof (induction segs rule: joinSep.induct)
  case 1
  then show ?case by simp
next
  case (2 s)
  then show ?case by (simp add: splitSep_no_sep)
next
  case (3 s t ss)
  then show ?case by (simp add: splitSep_append_sep)
qed

lemma splitSep_absolute_path:
  "list_all valid_name segs \<Longrightarrow>
     splitSep (absolute_path segs) = (if segs = [] then [[], []] else [] # segs)"
  by (auto simp: absolute_path_def splitSep_joinSep list_all_iff valid_name_def)

lemma joinSep_Nil_iff:
  "list_all valid_name segs \<Longrightarrow> joinSep segs = [] \<longleftrightarrow> segs = []"
  by (induction segs rule: joinSep.induct) (auto simp: valid_name_def)

lemma no_sep_valid: "list_all valid_name xs \<Longrightarrow> \<forall>s \<in> set xs. CHR ''/'' \<notin> set s"
  by (simp add: list_all_iff valid_name_def)

lemma joinSep_inj:
  assumes "list_all valid_name xs" "list_all valid_name ys" "joinSep xs = joinSep ys"
  shows "xs = ys"
proof (cases "xs = []")
  case True
  with assms joinSep_Nil_iff[of ys] show ?thesis by simp
next
  case False
  with assms joinSep_Nil_iff[of xs] joinSep_Nil_iff[of ys] have ys: "ys \<noteq> []" by auto
  have x: "splitSep (joinSep xs) = xs"
    using False no_sep_valid[OF assms(1)] by (rule splitSep_joinSep)
  have y: "splitSep (joinSep ys) = ys"
    using ys no_sep_valid[OF assms(2)] by (rule splitSep_joinSep)
  from x[symmetric] have "xs = splitSep (joinSep ys)" by (simp only: assms(3))
  then show ?thesis using y by (rule trans)
qed

lemma last_joinSep:
  "segs \<noteq> [] \<Longrightarrow> list_all valid_name segs \<Longrightarrow> last (joinSep segs) = last (last segs)"
  by (induction segs rule: joinSep.induct) (auto simp: valid_name_def joinSep_Nil_iff)

lemma normalizeSegments_valid:
  "\<forall>s \<in> set ss. s = [] \<or> valid_name s \<Longrightarrow>
     normalizeSegments a res ss = res @ filter (\<lambda>s. s \<noteq> []) ss"
  by (induction ss arbitrary: res) (auto simp: valid_name_def)

lemma splitSep_append:
  "splitSep (a @ CHR ''/'' # b) = splitSep a @ splitSep b"
  by (induction a) (auto split: list.splits)

lemma normalizeString_absolute_join:
  assumes "list_all valid_name ds" "list_all valid_name rs"
  shows "normalizeString (absolute_path ds @ ''/'' @ joinSep rs) a = joinSep (ds @ rs)"
proof -
  have "splitSep (absolute_path ds @ ''/'' @ joinSep rs) =
      splitSep (absolute_path ds) @ splitSep (joinSep rs)"
    by (simp add: splitSep_append)
  moreover have "filter (\<lambda>s. s \<noteq> []) (splitSep (absolute_path ds)) = ds"
    using assms(1) by (auto simp: splitSep_absolute_path list_all_iff valid_name_def filter_id_conv)
  moreover have "filter (\<lambda>s. s \<noteq> []) (splitSep (joinSep rs)) = rs"
    using assms(2) by (cases "rs = []")
      (auto simp: splitSep_joinSep list_all_iff valid_name_def filter_id_conv)
  moreover have "\<forall>s \<in> set (splitSep (absolute_path ds) @ splitSep (joinSep rs)). s = [] \<or> valid_name s"
    using assms by (cases "rs = []")
      (auto simp: splitSep_absolute_path splitSep_joinSep list_all_iff valid_name_def split: if_splits)
  ultimately show ?thesis
    by (simp add: normalizeString_def normalizeSegments_valid)
qed

lemma normalizeString_absolute:
  assumes "list_all valid_name ds"
  shows "normalizeString (absolute_path ds) a = joinSep ds"
proof -
  have "filter (\<lambda>s. s \<noteq> []) (splitSep (absolute_path ds)) = ds"
    using assms by (auto simp: splitSep_absolute_path list_all_iff valid_name_def filter_id_conv)
  moreover have "\<forall>s \<in> set (splitSep (absolute_path ds)). s = [] \<or> valid_name s"
    using assms by (auto simp: splitSep_absolute_path list_all_iff split: if_splits)
  ultimately show ?thesis
    by (simp add: normalizeString_def normalizeSegments_valid)
qed

lemma isAbsolute_absolute_path [simp]: "isAbsolute (absolute_path segs)"
  by (simp add: isAbsolute_def absolute_path_def)

lemma absolute_path_not_Nil [simp]: "absolute_path segs \<noteq> []"
  by (simp add: absolute_path_def)

lemma last_joinSep_no_sep:
  assumes "list_all valid_name rs" "rs \<noteq> []"
  shows "last (joinSep rs) \<noteq> CHR ''/''"
proof -
  from assms have "last rs \<in> set rs" by simp
  with assms(1) have v: "valid_name (last rs)" by (simp add: list_all_iff)
  then have "last rs \<noteq> []" and n: "CHR ''/'' \<notin> set (last rs)"
    by (simp_all add: valid_name_def)
  then have "last (last rs) \<in> set (last rs)" by simp
  with n have "last (last rs) \<noteq> CHR ''/''" by metis
  with assms show ?thesis by (simp add: last_joinSep)
qed

lemma join_absolute:
  assumes "list_all valid_name ds" "list_all valid_name rs" "rs \<noteq> []"
  shows "join (absolute_path ds) (joinSep rs) = absolute_path (ds @ rs)"
proof -
  let ?p = "absolute_path ds @ ''/'' @ joinSep rs"
  from assms have ne: "joinSep rs \<noteq> []" by (simp add: joinSep_Nil_iff)
  have abs: "isAbsolute ?p" by (simp add: isAbsolute_def absolute_path_def)
  have p: "?p \<noteq> []" by simp
  from last_joinSep_no_sep[OF assms(2,3)] ne have "last ?p \<noteq> CHR ''/''" by simp
  then have nt: "\<not> trailingSeparator ?p" by (simp only: trailingSeparator_def) blast
  have ns: "normalizeString ?p False = joinSep (ds @ rs)"
    by (rule normalizeString_absolute_join[OF assms(1,2)])
  from assms have ne2: "joinSep (ds @ rs) \<noteq> []" by (simp add: joinSep_Nil_iff)
  have "join (absolute_path ds) (joinSep rs) = normalize_path ?p"
    using ne by (simp add: join_def)
  also have "\<dots> = ''/'' @ joinSep (ds @ rs)"
    unfolding normalize_path_def Let_def using p abs nt ns ne2 by (simp only: if_False if_True not_True_eq_False not_False_eq_True)
  also have "\<dots> = absolute_path (ds @ rs)" by (simp only: absolute_path_def)
  finally show ?thesis .
qed

lemma join_absolute_name:
  assumes "list_all valid_name ds" "valid_name n"
  shows "join (absolute_path ds) n = absolute_path (ds @ [n])"
  using join_absolute[OF assms(1), of "[n]"] assms(2) by simp

lemma resolve_absolute:
  "list_all valid_name ds \<Longrightarrow> resolve c (absolute_path ds) = absolute_path ds"
  by (simp add: resolve_def Let_def normalizeString_absolute) (simp add: absolute_path_def)

lemma absolute_path_inj:
  "list_all valid_name xs \<Longrightarrow> list_all valid_name ys \<Longrightarrow>
     absolute_path xs = absolute_path ys \<Longrightarrow> xs = ys"
  by (simp add: absolute_path_def joinSep_inj)

lemma dropCommon_prefix: "dropCommon bs (bs @ rs) = ([], rs)"
  by (induction bs) simp_all

lemma relative_absolute:
  assumes "list_all valid_name bs" "list_all valid_name rs" "rs \<noteq> []"
  shows "relative c (absolute_path bs) (absolute_path (bs @ rs)) = joinSep rs"
proof -
  from assms have v: "list_all valid_name (bs @ rs)" by simp
  have ne: "absolute_path bs \<noteq> absolute_path (bs @ rs)"
    using absolute_path_inj[OF assms(1) v] assms(3) by auto
  have f1: "filter (\<lambda>s. s \<noteq> []) (splitSep (absolute_path bs)) = bs"
    using assms(1) by (auto simp: splitSep_absolute_path list_all_iff valid_name_def filter_id_conv)
  have f2: "filter (\<lambda>s. s \<noteq> []) (splitSep (absolute_path (bs @ rs))) = bs @ rs"
    using v assms(3)
    by (auto simp: splitSep_absolute_path list_all_iff valid_name_def filter_id_conv)
  show ?thesis
    using ne by (simp add: relative_def Let_def resolve_absolute[OF assms(1)] resolve_absolute[OF v]
        f1 f2 dropCommon_prefix)
qed

section \<open>The walk of a well-formed tree\<close>

lemma namei_valid:
  "list_all valid_name segs \<Longrightarrow> descend cur segs = Some d \<Longrightarrow> namei cur ps segs = Inr d"
proof (induction segs arbitrary: cur ps)
  case Nil
  then show ?case by simp
next
  case (Cons s ss)
  from Cons.prems(2) obtain es c where cur: "cur = Dir es" and c: "map_of es s = Some c"
    and d: "descend c ss = Some d"
    by (cases cur) (auto split: option.splits)
  from Cons.prems(1) have v: "valid_name s" and ss: "list_all valid_name ss" by simp_all
  from v have s: "s \<noteq> []" "s \<noteq> ''.''" "s \<noteq> ''..''"
    by (simp_all add: valid_name_def)
  from Cons.IH[OF ss d] have "namei c (cur # ps) ss = Inr d" .
  with cur c s show ?case by simp
qed

lemma descend_append:
  "descend n (xs @ ys) = (case descend n xs of None \<Rightarrow> None | Some d \<Rightarrow> descend d ys)"
proof (induction xs arbitrary: n)
  case Nil
  then show ?case by simp
next
  case (Cons x xs)
  then show ?case by (cases n) (simp_all split: option.splits)
qed

lemma readdir_withFileTypes_absolute:
  assumes "list_all valid_name segs" "descend (root w) segs = Some d"
  shows "readdir_withFileTypes (absolute_path segs) w =
     ((case d of
         Leaf t r \<Rightarrow> Inl (SystemError ENOTDIR)
       | Dir es \<Rightarrow> Inr (map (\<lambda>(n, c). (n, node_type c)) es)
       | BadDir e \<Rightarrow> Inl (SystemError e)),
      log_call (ReaddirCall (absolute_path segs) (readdir_outcome d)) w)"
proof (cases "segs = []")
  case True
  with assms have d: "d = root w" by simp
  have sp: "splitSep (absolute_path []) = [[], []]"
    by (simp add: absolute_path_def)
  show ?thesis
    using True d sp
    by (cases "root w")
       (simp_all add: readdir_withFileTypes_def lookup_path_def readdir_outcome_def)
next
  case False
  with assms(1) have sp: "splitSep (absolute_path segs) = [] # segs"
    by (simp add: splitSep_absolute_path)
  from False assms(2) obtain es where r: "root w = Dir es"
    by (cases "root w"; cases segs) auto
  from namei_valid[OF assms] have "namei (root w) [] segs = Inr d" .
  with r sp have "lookup_path w (absolute_path segs) = Inr d"
    by (simp add: lookup_path_def)
  then show ?thesis
    by (cases d) (simp_all add: readdir_withFileTypes_def readdir_outcome_def)
qed

lemma height_child: "e \<in> set es \<Longrightarrow> height (snd e) < height (Dir es)"
  by (induction es) auto

lemma loop_simulation:
  assumes walk: "\<And>rel d w. root w = R \<Longrightarrow> max_spread w = limit \<Longrightarrow>
      descend R (bs @ rel) = Some d \<Longrightarrow>
      list_all valid_name rel \<Longrightarrow> wf_node d \<Longrightarrow> height d < fuel \<Longrightarrow>
      \<exists>w'. listFilesRecursively fuel (absolute_path bs) (absolute_path (bs @ rel)) w =
        Some (map_sum id (map (\<lambda>segs. joinSep (rel @ segs))) (walk_result limit d), w')"
    and bs: "list_all valid_name bs" and rel: "list_all valid_name rel"
    and dir: "descend R (bs @ rel) = Some (Dir es)" and dist: "distinct (map fst es)"
  shows "set es' \<subseteq> set es \<Longrightarrow>
     \<forall>e \<in> set es'. valid_name (fst e) \<and> wf_node (snd e) \<and> height (snd e) < fuel \<Longrightarrow>
     root w = R \<Longrightarrow> max_spread w = limit \<Longrightarrow>
     \<exists>w'. listFiles_loop fuel (absolute_path bs) (absolute_path (bs @ rel))
             (map (\<lambda>(n, c). (n, node_type c)) es') files w =
       Some (case entries_result limit es' of
               Inl e \<Rightarrow> Inl e
             | Inr ps \<Rightarrow> Inr (files @ map (\<lambda>segs. joinSep (rel @ segs)) ps), w')"
proof (induction es' arbitrary: files w)
  case Nil
  then show ?case by simp
next
  case (Cons e es')
  obtain n c where e: "e = (n, c)" by (cases e)
  from Cons.prems e have mem: "(n, c) \<in> set es" and sub: "set es' \<subseteq> set es"
    and n: "valid_name n" and c: "wf_node c" "height c < fuel"
    and rest: "\<forall>e \<in> set es'. valid_name (fst e) \<and> wf_node (snd e) \<and> height (snd e) < fuel"
    by auto
  from bs rel have brel: "list_all valid_name (bs @ rel)" by simp
  have full: "join (absolute_path (bs @ rel)) n = absolute_path (bs @ rel @ [n])"
    using join_absolute_name[OF brel n] by simp
  from mem dist have "map_of es n = Some c" by simp
  with dir have child: "descend R (bs @ rel @ [n]) = Some c"
    using descend_append[of R "bs @ rel" "[n]"] by simp
  from rel n have rel': "list_all valid_name (rel @ [n])" by simp
  show ?case
  proof (cases "node_type c = DirectoryT")
    case True
    from walk[OF Cons.prems(3,4) child rel' c] obtain w1 where
      w1: "listFilesRecursively fuel (absolute_path bs) (absolute_path (bs @ rel @ [n])) w =
        Some (map_sum id (map (\<lambda>segs. joinSep ((rel @ [n]) @ segs))) (walk_result limit c), w1)"
      by blast
    from walk_preserves(1)[OF w1] Cons.prems(3,4) have r1: "root w1 = R"
      and l1: "max_spread w1 = limit" by simp_all
    show ?thesis
    proof (cases "walk_result limit c")
      case (Inl err)
      with True w1 e full show ?thesis by simp
    next
      case (Inr sub)
      show ?thesis
      proof (cases "limit < length sub")
        case big: True
        with True w1 e full Inr l1 show ?thesis by simp
      next
        case small: False
        from Cons.IH[OF sub rest r1 l1, of "files @ map (\<lambda>segs. joinSep ((rel @ [n]) @ segs)) sub"]
        obtain w2 where
          "listFiles_loop fuel (absolute_path bs) (absolute_path (bs @ rel))
             (map (\<lambda>(n, c). (n, node_type c)) es')
             (files @ map (\<lambda>segs. joinSep ((rel @ [n]) @ segs)) sub) w1 =
           Some (case entries_result limit es' of
                   Inl e \<Rightarrow> Inl e
                 | Inr ps \<Rightarrow> Inr ((files @ map (\<lambda>segs. joinSep ((rel @ [n]) @ segs)) sub) @
                                   map (\<lambda>segs. joinSep (rel @ segs)) ps), w2)"
          by blast
        with True w1 e full Inr l1 small show ?thesis
          by (cases "entries_result limit es'") (simp_all add: comp_def)
      qed
    qed
  next
    case False
    have relp: "relative (cwd w) (absolute_path bs) (absolute_path (bs @ rel @ [n])) =
        joinSep (rel @ [n])"
      using relative_absolute[OF bs rel', of "cwd w"] by simp
    from Cons.IH[OF sub rest Cons.prems(3,4), of "files @ [joinSep (rel @ [n])]"]
    obtain w2 where
      "listFiles_loop fuel (absolute_path bs) (absolute_path (bs @ rel))
         (map (\<lambda>(n, c). (n, node_type c)) es') (files @ [joinSep (rel @ [n])]) w =
       Some (case entries_result limit es' of
               Inl e \<Rightarrow> Inl e
             | Inr ps \<Rightarrow> Inr ((files @ [joinSep (rel @ [n])]) @
                               map (\<lambda>segs. joinSep (rel @ segs)) ps), w2)"
      by blast
    with False e full relp show ?thesis
      by (cases "entries_result limit es'") simp_all
  qed
qed

lemma walk_simulation:
  assumes bs: "list_all valid_name bs"
  shows "root w = R \<Longrightarrow> max_spread w = limit \<Longrightarrow> descend R (bs @ rel) = Some d \<Longrightarrow>
     list_all valid_name rel \<Longrightarrow> wf_node d \<Longrightarrow> height d < fuel \<Longrightarrow>
     \<exists>w'. listFilesRecursively fuel (absolute_path bs) (absolute_path (bs @ rel)) w =
       Some (map_sum id (map (\<lambda>segs. joinSep (rel @ segs))) (walk_result limit d), w')"
proof (induction fuel arbitrary: rel d w)
  case 0
  then show ?case by simp
next
  case (Suc fuel)
  from bs Suc.prems(4) have brel: "list_all valid_name (bs @ rel)" by simp
  from Suc.prems(1,3) have dw: "descend (root w) (bs @ rel) = Some d" by simp
  note rd = readdir_withFileTypes_absolute[OF brel dw]
  show ?case
  proof (cases d)
    case (Leaf t r)
    with rd show ?thesis by simp
  next
    case (BadDir e)
    with rd show ?thesis by simp
  next
    case (Dir es)
    let ?w1 = "log_call (ReaddirCall (absolute_path (bs @ rel)) None) w"
    from Suc.prems(1,2) have r1: "root ?w1 = R" and l1: "max_spread ?w1 = limit" by simp_all
    from Suc.prems(5) Dir have dist: "distinct (map fst es)"
      and wf: "\<forall>e \<in> set es. valid_name (fst e) \<and> wf_node (snd e)" by simp_all
    from Suc.prems(6) Dir have "\<forall>e \<in> set es. height (snd e) < fuel"
      using height_child[of _ es] by fastforce
    with wf have all: "\<forall>e \<in> set es. valid_name (fst e) \<and> wf_node (snd e) \<and> height (snd e) < fuel"
      by blast
    from Suc.prems(3) Dir have dir: "descend R (bs @ rel) = Some (Dir es)" by simp
    from loop_simulation[of R limit bs fuel rel es es ?w1 "[]",
        OF Suc.IH bs Suc.prems(4) dir dist subset_refl all r1 l1]
    obtain w' where
      "listFiles_loop fuel (absolute_path bs) (absolute_path (bs @ rel))
         (map (\<lambda>(n, c). (n, node_type c)) es) [] ?w1 =
       Some (case entries_result limit es of
               Inl e \<Rightarrow> Inl e
             | Inr ps \<Rightarrow> Inr ([] @ map (\<lambda>segs. joinSep (rel @ segs)) ps), w')"
      by blast
    with rd Dir show ?thesis
      by (cases "entries_result limit es") (simp_all add: readdir_outcome_def)
  qed
qed

section \<open>The entries below a directory\<close>

lemma descend_valid:
  "wf_node d \<Longrightarrow> descend d segs = Some n \<Longrightarrow> list_all valid_name segs \<and> wf_node n"
proof (induction segs arbitrary: d)
  case Nil
  then show ?case by simp
next
  case (Cons s ss)
  from Cons.prems(2) obtain es c where d: "d = Dir es" and c: "map_of es s = Some c"
    and n: "descend c ss = Some n"
    by (cases d) (auto split: option.splits)
  from c have "(s, c) \<in> set es" by (rule map_of_SomeD)
  with Cons.prems(1) d have "valid_name s" "wf_node c" by auto
  with Cons.IH[OF _ n] show ?case by simp
qed

lemma descend_Leaf_Cons: "descend (Leaf t r) segs = Some n \<longleftrightarrow> segs = [] \<and> n = Leaf t r"
  by (cases segs) auto

lemma leaf_paths_mem:
  "wf_node d \<Longrightarrow> leaf_paths d = Inr ps \<Longrightarrow>
     segs \<in> set ps \<longleftrightarrow> (\<exists>t r. descend d segs = Some (Leaf t r))"
  "distinct (map fst es) \<Longrightarrow> \<forall>e \<in> set es. valid_name (fst e) \<and> wf_node (snd e) \<Longrightarrow>
     entries_paths es = Inr ps \<Longrightarrow>
     segs \<in> set ps \<longleftrightarrow>
       (\<exists>s ss c t r. segs = s # ss \<and> map_of es s = Some c \<and> descend c ss = Some (Leaf t r))"
proof (induction d and es arbitrary: ps segs and ps segs rule: leaf_paths_entries_paths.induct)
  case (1 t r)
  then show ?case by simp
next
  case (2 es)
  from "2.prems" have "distinct (map fst es)"
    and "\<forall>e \<in> set es. valid_name (fst e) \<and> wf_node (snd e)" and "entries_paths es = Inr ps"
    by simp_all
  from "2.IH"[OF this] show ?case
    by (cases segs) (auto split: option.splits)
next
  case (3 e)
  then show ?case by simp
next
  case 4
  then show ?case by simp
next
  case (5 n c es)
  from "5.prems" have dist: "distinct (map fst es)" and notin: "n \<notin> fst ` set es"
    and wfc: "wf_node c"
    and wfes: "\<forall>e \<in> set es. valid_name (fst e) \<and> wf_node (snd e)"
    by auto
  from notin have none: "map_of es n = None" by (simp add: map_of_eq_None_iff)
  show ?case
  proof (cases "node_type c = DirectoryT")
    case True
    with "5.prems"(3) obtain sub rest where sub: "leaf_paths c = Inr sub"
      and rest: "entries_paths es = Inr rest" and ps: "ps = map ((#) n) sub @ rest"
      by (auto split: sum.splits)
    note ih1 = "5.IH"(1)[OF True wfc sub]
    note ih2 = "5.IH"(2)[OF True sub dist wfes rest]
    show ?thesis
    proof
      assume "segs \<in> set ps"
      with ps consider ss where "segs = n # ss" "ss \<in> set sub" | "segs \<in> set rest" by auto
      then show "\<exists>s ss ca t r. segs = s # ss \<and> map_of ((n, c) # es) s = Some ca \<and>
          descend ca ss = Some (Leaf t r)"
      proof cases
        case 1
        with ih1[of ss] show ?thesis by auto
      next
        case 2
        with ih2[of segs] obtain s ss ca t r where
          "segs = s # ss" "map_of es s = Some ca" "descend ca ss = Some (Leaf t r)" by blast
        moreover with none have "s \<noteq> n" by auto
        ultimately show ?thesis by auto
      qed
    next
      assume "\<exists>s ss ca t r. segs = s # ss \<and> map_of ((n, c) # es) s = Some ca \<and>
          descend ca ss = Some (Leaf t r)"
      then obtain s ss ca t r where s: "segs = s # ss" "map_of ((n, c) # es) s = Some ca"
        "descend ca ss = Some (Leaf t r)" by blast
      show "segs \<in> set ps"
      proof (cases "s = n")
        case True
        with s ih1[of ss] ps show ?thesis by auto
      next
        case False
        with s ih2[of segs] ps show ?thesis by auto
      qed
    qed
  next
    case False
    with wfc obtain t0 r0 where c: "c = Leaf t0 r0" by (cases c) auto
    from False "5.prems"(3) obtain rest where
      rest: "entries_paths es = Inr rest" and ps: "ps = [n] # rest"
      by (auto split: sum.splits)
    note ih = "5.IH"(3)[OF False dist wfes rest]
    show ?thesis
    proof
      assume "segs \<in> set ps"
      with ps consider "segs = [n]" | "segs \<in> set rest" by auto
      then show "\<exists>s ss ca t r. segs = s # ss \<and> map_of ((n, c) # es) s = Some ca \<and>
          descend ca ss = Some (Leaf t r)"
      proof cases
        case 1
        with c show ?thesis by auto
      next
        case 2
        with ih[of segs] obtain s ss ca t r where
          "segs = s # ss" "map_of es s = Some ca" "descend ca ss = Some (Leaf t r)" by blast
        moreover with none have "s \<noteq> n" by auto
        ultimately show ?thesis by auto
      qed
    next
      assume "\<exists>s ss ca t r. segs = s # ss \<and> map_of ((n, c) # es) s = Some ca \<and>
          descend ca ss = Some (Leaf t r)"
      then obtain s ss ca t r where s: "segs = s # ss" "map_of ((n, c) # es) s = Some ca"
        "descend ca ss = Some (Leaf t r)" by blast
      show "segs \<in> set ps"
      proof (cases "s = n")
        case True
        with s c ps show ?thesis by (auto simp: descend_Leaf_Cons)
      next
        case False
        with s ih[of segs] ps show ?thesis by auto
      qed
    qed
  qed
qed

lemma entries_paths_hd:
  "entries_paths es = Inr ps \<Longrightarrow> segs \<in> set ps \<Longrightarrow> segs \<noteq> [] \<and> hd segs \<in> fst ` set es"
proof (induction es arbitrary: ps)
  case Nil
  then show ?case by simp
next
  case (Cons e es)
  obtain n c where e: "e = (n, c)" by (cases e)
  show ?case
  proof (cases "node_type c = DirectoryT")
    case True
    with Cons.prems e obtain sub rest where "entries_paths es = Inr rest"
      "ps = map ((#) n) sub @ rest" by (auto split: sum.splits)
    with Cons.IH[of rest] Cons.prems(2) e show ?thesis by auto
  next
    case False
    with Cons.prems e obtain rest where "entries_paths es = Inr rest" "ps = [n] # rest"
      by (auto split: sum.splits)
    with Cons.IH[of rest] Cons.prems(2) e show ?thesis by auto
  qed
qed

lemma leaf_paths_distinct:
  "leaf_paths d = Inr ps \<Longrightarrow> wf_node d \<Longrightarrow> distinct ps"
  "entries_paths es = Inr ps \<Longrightarrow> distinct (map fst es) \<Longrightarrow>
     \<forall>e \<in> set es. valid_name (fst e) \<and> wf_node (snd e) \<Longrightarrow> distinct ps"
proof (induction d and es arbitrary: ps and ps rule: leaf_paths_entries_paths.induct)
  case (1 t r)
  then show ?case by simp
next
  case (2 es)
  then show ?case by simp
next
  case (3 e)
  then show ?case by simp
next
  case 4
  then show ?case by simp
next
  case (5 n c es)
  from "5.prems" have dist: "distinct (map fst es)" and notin: "n \<notin> fst ` set es"
    and wfc: "wf_node c"
    and wfes: "\<forall>e \<in> set es. valid_name (fst e) \<and> wf_node (snd e)"
    by auto
  show ?case
  proof (cases "node_type c = DirectoryT")
    case True
    with "5.prems"(1) obtain sub rest where sub: "leaf_paths c = Inr sub"
      and rest: "entries_paths es = Inr rest" and ps: "ps = map ((#) n) sub @ rest"
      by (auto split: sum.splits)
    from "5.IH"(1)[OF True sub wfc] have d1: "distinct sub" .
    from "5.IH"(2)[OF True sub rest dist wfes] have d2: "distinct rest" .
    have "set (map ((#) n) sub) \<inter> set rest = {}"
    proof (rule ccontr)
      assume "set (map ((#) n) sub) \<inter> set rest \<noteq> {}"
      then obtain ss where "n # ss \<in> set rest" by auto
      from entries_paths_hd[OF rest this] notin show False by simp
    qed
    with d1 d2 ps show ?thesis by (simp add: distinct_map)
  next
    case False
    with "5.prems"(1) obtain rest where
      rest: "entries_paths es = Inr rest" and ps: "ps = [n] # rest"
      by (auto split: sum.splits)
    from "5.IH"(3)[OF False rest dist wfes] have d2: "distinct rest" .
    have "[n] \<notin> set rest"
    proof
      assume "[n] \<in> set rest"
      from entries_paths_hd[OF rest this] notin show False by simp
    qed
    with d2 ps show ?thesis by simp
  qed
qed

lemma leaf_paths_Inl:
  "wf_node d \<Longrightarrow> leaf_paths d = Inl e \<Longrightarrow>
     (\<exists>t r. d = Leaf t r) \<or> (\<exists>segs. descend d segs = Some (BadDir e))"
  "distinct (map fst es) \<Longrightarrow> \<forall>e \<in> set es. valid_name (fst e) \<and> wf_node (snd e) \<Longrightarrow>
     entries_paths es = Inl e \<Longrightarrow>
     \<exists>s ss c. map_of es s = Some c \<and> descend c ss = Some (BadDir e)"
proof (induction d and es arbitrary: e and e rule: leaf_paths_entries_paths.induct)
  case (1 t r)
  then show ?case by simp
next
  case (2 es)
  from "2.prems" have "distinct (map fst es)"
    and "\<forall>e \<in> set es. valid_name (fst e) \<and> wf_node (snd e)" and "entries_paths es = Inl e"
    by simp_all
  from "2.IH"[OF this] obtain s ss c where "map_of es s = Some c" "descend c ss = Some (BadDir e)"
    by blast
  then have "descend (Dir es) (s # ss) = Some (BadDir e)" by simp
  then show ?case by blast
next
  case (3 e')
  then have "descend (BadDir e') [] = Some (BadDir e)" by simp
  then show ?case by blast
next
  case 4
  then show ?case by simp
next
  case (5 n c es)
  from "5.prems" have dist: "distinct (map fst es)" and notin: "n \<notin> fst ` set es"
    and wfc: "wf_node c"
    and wfes: "\<forall>e \<in> set es. valid_name (fst e) \<and> wf_node (snd e)"
    by auto
  from notin have none: "map_of es n = None" by (simp add: map_of_eq_None_iff)
  have rest: "\<exists>s ss ca. map_of ((n, c) # es) s = Some ca \<and> descend ca ss = Some (BadDir e)"
    if "\<exists>s ss ca. map_of es s = Some ca \<and> descend ca ss = Some (BadDir e)"
  proof -
    from that obtain s ss ca where s: "map_of es s = Some ca" "descend ca ss = Some (BadDir e)"
      by blast
    with none have "s \<noteq> n" by auto
    with s show ?thesis by auto
  qed
  show ?case
  proof (cases "node_type c = DirectoryT")
    case True
    show ?thesis
    proof (cases "leaf_paths c")
      case (Inl e')
      with True "5.prems"(3) have "e' = e" by simp
      with "5.IH"(1)[OF True wfc] Inl wfc True
      obtain segs where "descend c segs = Some (BadDir e)" by (cases c) auto
      then have "map_of ((n, c) # es) n = Some c \<and> descend c segs = Some (BadDir e)" by simp
      then show ?thesis by blast
    next
      case (Inr sub)
      with True "5.prems"(3) have "entries_paths es = Inl e" by (auto split: sum.splits)
      from rest[OF "5.IH"(2)[OF True Inr dist wfes this]] show ?thesis .
    qed
  next
    case False
    with "5.prems"(3) have "entries_paths es = Inl e" by (auto split: sum.splits)
    from rest[OF "5.IH"(3)[OF False dist wfes this]] show ?thesis .
  qed
qed

lemma entries_paths_fail:
  "(n, c) \<in> set es \<Longrightarrow> node_type c = DirectoryT \<Longrightarrow> leaf_paths c = Inl e \<Longrightarrow>
     \<exists>e'. entries_paths es = Inl e'"
proof (induction es)
  case Nil
  then show ?case by simp
next
  case (Cons x es)
  obtain m k where x: "x = (m, k)" by (cases x)
  show ?case
  proof (cases "(n, c) = x")
    case True
    with Cons.prems x show ?thesis by simp
  next
    case False
    with Cons.prems have "(n, c) \<in> set es" by simp
    from Cons.IH[OF this Cons.prems(2,3)] x show ?thesis
      by (auto split: sum.splits)
  qed
qed

lemma leaf_paths_BadDir:
  "wf_node d \<Longrightarrow> descend d segs = Some (BadDir e) \<Longrightarrow> \<exists>e'. leaf_paths d = Inl e'"
proof (induction segs arbitrary: d)
  case Nil
  then show ?case by simp
next
  case (Cons s ss)
  from Cons.prems(2) obtain es c where d: "d = Dir es" and c: "map_of es s = Some c"
    and n: "descend c ss = Some (BadDir e)"
    by (cases d) (auto split: option.splits)
  from c have mem: "(s, c) \<in> set es" by (rule map_of_SomeD)
  with Cons.prems(1) d have wfc: "wf_node c" by auto
  from Cons.IH[OF wfc n] obtain e' where e': "leaf_paths c = Inl e'" by blast
  from n have "node_type c = DirectoryT" by (cases c) (auto simp: descend_Leaf_Cons)
  from entries_paths_fail[OF mem this e'] d show ?case by simp
qed

lemma walk_result_Inr:
  "walk_result limit d = Inr ps \<Longrightarrow> leaf_paths d = Inr ps"
  "entries_result limit es = Inr ps \<Longrightarrow> entries_paths es = Inr ps"
proof (induction limit d and limit es arbitrary: ps and ps rule: walk_result_entries_result.induct)
  case (1 limit t r)
  then show ?case by simp
next
  case (2 limit es)
  then show ?case by simp
next
  case (3 limit e)
  then show ?case by simp
next
  case (4 limit)
  then show ?case by simp
next
  case (5 limit n c es)
  show ?case
  proof (cases "node_type c = DirectoryT")
    case True
    with "5.prems" obtain sub rest where sub: "walk_result limit c = Inr sub"
      and small: "\<not> limit < length sub" and rest: "entries_result limit es = Inr rest"
      and ps: "ps = map ((#) n) sub @ rest"
      by (simp split: sum.splits if_splits)
    from "5.IH"(1)[OF True sub] "5.IH"(2)[OF True sub small rest] True ps
    show ?thesis by simp
  next
    case False
    with "5.prems" obtain rest where rest: "entries_result limit es = Inr rest"
      and ps: "ps = [n] # rest"
      by (simp split: sum.splits)
    from "5.IH"(3)[OF False rest] False ps show ?thesis by simp
  qed
qed

lemma walk_result_SystemError:
  "walk_result limit d = Inl (SystemError en) \<Longrightarrow> leaf_paths d = Inl en"
  "entries_result limit es = Inl (SystemError en) \<Longrightarrow> entries_paths es = Inl en"
proof (induction limit d and limit es rule: walk_result_entries_result.induct)
  case (1 limit t r)
  then show ?case by simp
next
  case (2 limit es)
  then show ?case by simp
next
  case (3 limit e)
  then show ?case by simp
next
  case (4 limit)
  then show ?case by simp
next
  case (5 limit n c es)
  show ?case
  proof (cases "node_type c = DirectoryT")
    case True
    show ?thesis
    proof (cases "walk_result limit c")
      case (Inl x)
      with True "5.prems" have "x = SystemError en" by simp
      with "5.IH"(1)[OF True] Inl True show ?thesis by simp
    next
      case (Inr sub)
      with True "5.prems" have small: "\<not> limit < length sub"
        and rest: "entries_result limit es = Inl (SystemError en)"
        by (simp_all split: sum.splits if_splits)
      from walk_result_Inr(1)[OF Inr] "5.IH"(2)[OF True Inr small rest] True
      show ?thesis by simp
    qed
  next
    case False
    with "5.prems" have rest: "entries_result limit es = Inl (SystemError en)"
      by (simp split: sum.splits)
    from "5.IH"(3)[OF False rest] False show ?thesis by simp
  qed
qed

text \<open>A range error of the traversal comes from a sub-directory with too many entries.\<close>

lemma walk_result_RangeError:
  "wf_node d \<Longrightarrow> walk_result limit d = Inl (RangeError m) \<Longrightarrow>
     \<exists>segs c sub. segs \<noteq> [] \<and> descend d segs = Some c \<and> node_type c = DirectoryT \<and>
       leaf_paths c = Inr sub \<and> limit < length sub"
  "distinct (map fst es) \<Longrightarrow> \<forall>e \<in> set es. valid_name (fst e) \<and> wf_node (snd e) \<Longrightarrow>
     entries_result limit es = Inl (RangeError m) \<Longrightarrow>
     \<exists>s ss k c sub. map_of es s = Some k \<and> descend k ss = Some c \<and> node_type c = DirectoryT \<and>
       leaf_paths c = Inr sub \<and> limit < length sub"
proof (induction limit d and limit es rule: walk_result_entries_result.induct)
  case (1 limit t r)
  then show ?case by simp
next
  case (2 limit es)
  from "2.prems" have "distinct (map fst es)"
    and "\<forall>e \<in> set es. valid_name (fst e) \<and> wf_node (snd e)"
    and "entries_result limit es = Inl (RangeError m)"
    by simp_all
  from "2.IH"[OF this] obtain s ss k c sub where
    k: "map_of es s = Some k" "descend k ss = Some c" and
    c: "node_type c = DirectoryT" "leaf_paths c = Inr sub" "limit < length sub"
    by blast
  from k have "descend (Dir es) (s # ss) = Some c" by simp
  with c show ?case by blast
next
  case (3 limit e)
  then show ?case by simp
next
  case (4 limit)
  then show ?case by simp
next
  case (5 limit n c es)
  from "5.prems" have dist: "distinct (map fst es)" and notin: "n \<notin> fst ` set es"
    and wfc: "wf_node c"
    and wfes: "\<forall>e \<in> set es. valid_name (fst e) \<and> wf_node (snd e)"
    by auto
  from notin have none: "map_of es n = None" by (simp add: map_of_eq_None_iff)
  have rest: "\<exists>s ss k c' sub. map_of ((n, c) # es) s = Some k \<and> descend k ss = Some c' \<and>
      node_type c' = DirectoryT \<and> leaf_paths c' = Inr sub \<and> limit < length sub"
    if "\<exists>s ss k c' sub. map_of es s = Some k \<and> descend k ss = Some c' \<and>
      node_type c' = DirectoryT \<and> leaf_paths c' = Inr sub \<and> limit < length sub"
  proof -
    from that obtain s ss k c' sub where s: "map_of es s = Some k" and
      r: "descend k ss = Some c'" "node_type c' = DirectoryT" "leaf_paths c' = Inr sub"
         "limit < length sub"
      by blast
    from s none have "s \<noteq> n" by auto
    with s have "map_of ((n, c) # es) s = Some k" by simp
    with r show ?thesis by blast
  qed
  have here: "\<exists>s ss k c' sub. map_of ((n, c) # es) s = Some k \<and> descend k ss = Some c' \<and>
      node_type c' = DirectoryT \<and> leaf_paths c' = Inr sub \<and> limit < length sub"
    if "descend c ss = Some c'" "node_type c' = DirectoryT" "leaf_paths c' = Inr sub"
      "limit < length sub" for ss c' sub
  proof -
    have "map_of ((n, c) # es) n = Some c" by simp
    with that show ?thesis by blast
  qed
  show ?case
  proof (cases "node_type c = DirectoryT")
    case True
    show ?thesis
    proof (cases "walk_result limit c")
      case (Inl x)
      with True "5.prems"(3) have "x = RangeError m" by simp
      with "5.IH"(1)[OF True wfc] Inl obtain segs c' sub where
        "descend c segs = Some c'" "node_type c' = DirectoryT" "leaf_paths c' = Inr sub"
        "limit < length sub"
        by blast
      then show ?thesis by (rule here)
    next
      case (Inr sub)
      show ?thesis
      proof (cases "limit < length sub")
        case big: True
        have "descend c [] = Some c" by simp
        from this True walk_result_Inr(1)[OF Inr] big show ?thesis by (rule here)
      next
        case small: False
        with True Inr "5.prems"(3) have "entries_result limit es = Inl (RangeError m)"
          by (simp split: sum.splits)
        from rest[OF "5.IH"(2)[OF True Inr small dist wfes this]] show ?thesis .
      qed
    qed
  next
    case False
    with "5.prems"(3) have "entries_result limit es = Inl (RangeError m)"
      by (simp split: sum.splits)
    from rest[OF "5.IH"(3)[OF False dist wfes this]] show ?thesis .
  qed
qed


lemma walk_result_error:
  "walk_result limit d = Inl x \<Longrightarrow> (\<exists>en. x = SystemError en) \<or> (\<exists>m. x = RangeError m)"
  "entries_result limit es = Inl x \<Longrightarrow> (\<exists>en. x = SystemError en) \<or> (\<exists>m. x = RangeError m)"
proof (induction limit d and limit es rule: walk_result_entries_result.induct)
  case (5 limit n c es)
  show ?case
  proof (cases "node_type c = DirectoryT")
    case True
    show ?thesis
    proof (cases "walk_result limit c")
      case (Inl y)
      with True "5.prems" have "y = x" by simp
      with "5.IH"(1)[OF True] Inl show ?thesis by simp
    next
      case (Inr sub)
      show ?thesis
      proof (cases "limit < length sub")
        case big: True
        with True Inr "5.prems" show ?thesis by auto
      next
        case small: False
        with True Inr "5.prems" have "entries_result limit es = Inl x"
          by (simp split: sum.splits)
        from "5.IH"(2)[OF True Inr small this] show ?thesis .
      qed
    qed
  next
    case False
    with "5.prems" have "entries_result limit es = Inl x" by (simp split: sum.splits)
    from "5.IH"(3)[OF False this] show ?thesis .
  qed
qed auto

lemma leaf_paths_entries:
  assumes wf: "wf_node d" and ps: "leaf_paths d = Inr ps"
  shows "distinct (map joinSep ps)" "set (map joinSep ps) = entries_below d"
    "length ps = card (entries_below d)"
proof -
  have mem: "segs \<in> set ps \<longleftrightarrow> (\<exists>t r. descend d segs = Some (Leaf t r))" for segs
    by (rule leaf_paths_mem(1)[OF wf ps])
  have valid: "list_all valid_name segs" if "segs \<in> set ps" for segs
    using that mem descend_valid[OF wf] by blast
  have inj: "inj_on joinSep (set ps)"
    by (rule inj_onI) (simp add: joinSep_inj valid)
  from leaf_paths_distinct(1)[OF ps wf] inj show d: "distinct (map joinSep ps)"
    by (simp add: distinct_map)
  show s: "set (map joinSep ps) = entries_below d"
    using mem by (auto simp: entries_below_def)
  from distinct_card[OF d] s show "length ps = card (entries_below d)" by simp
qed

lemma walk_result_causes:
  assumes wf: "wf_node base" and r: "walk_result limit base = Inl e"
  shows "(\<exists>t r. base = Leaf t r) \<or>
     (\<exists>segs en. e = SystemError en \<and> descend base segs = Some (BadDir en)) \<or>
     (\<exists>m. e = RangeError m \<and> oversized limit base)"
proof -
  from walk_result_error(1)[OF r] consider en where "e = SystemError en" | m where "e = RangeError m"
    by blast
  then show ?thesis
  proof cases
    case 1
    with r have "leaf_paths base = Inl en" by (simp add: walk_result_SystemError(1))
    from leaf_paths_Inl(1)[OF wf this] 1 show ?thesis by blast
  next
    case 2
    with walk_result_RangeError(1)[OF wf] r obtain segs c sub where
      c: "segs \<noteq> []" "descend base segs = Some c" "node_type c = DirectoryT"
         "leaf_paths c = Inr sub" "limit < length sub"
      by blast
    from descend_valid[OF wf c(2)] have "wf_node c" by simp
    from leaf_paths_entries(3)[OF this c(4)] c(5) have "limit < card (entries_below c)" by simp
    with c(1-3) have "oversized limit base" unfolding oversized_def by blast
    with 2 show ?thesis by blast
  qed
qed

lemma walk_total:
  assumes bs: "list_all valid_name bs" and base: "descend (root w) bs = Some base"
    and wf: "wf_node base" and fuel: "height base < fuel"
  shows "\<exists>w'. listFilesRecursively fuel (absolute_path bs) (absolute_path bs) w =
     Some (map_sum id (map joinSep) (walk_result (max_spread w) base), w')"
  using walk_simulation[OF bs refl refl, of w "[]" base fuel] base wf fuel by simp

section \<open>Reading back the JSON text\<close>

lemma hexval_digit: "n < 16 \<Longrightarrow> hexval (''0123456789abcdef'' ! n) = n"
proof -
  assume "n < 16"
  then have "n \<in> set [0..<16]" by simp
  moreover have "\<forall>k \<in> set [0..<16]. hexval (''0123456789abcdef'' ! k) = k" by code_simp
  ultimately show ?thesis by blast
qed

lemma unquoteChars_quoteChar:
  "unquoteChars acc (quoteChar c @ rest) = unquoteChars (acc @ [c]) rest"
proof -
  define n where "n = (of_char c :: nat)"
  have c: "c = char_of n" by (simp add: n_def)
  have ch: "char_of (0x22 :: nat) = CHR 0x22" "char_of (0x5C :: nat) = CHR 0x5C"
    "char_of (0x08 :: nat) = CHR 0x08" "char_of (0x09 :: nat) = CHR 0x09"
    "char_of (0x0A :: nat) = CHR 0x0A" "char_of (0x0C :: nat) = CHR 0x0C"
    "char_of (0x0D :: nat) = CHR 0x0D"
    by code_simp+
  consider "n = 0x22" | "n = 0x5C" | "n = 0x08" | "n = 0x09" | "n = 0x0A" | "n = 0x0C" | "n = 0x0D"
    | "n < 0x20" "n \<noteq> 0x08" "n \<noteq> 0x09" "n \<noteq> 0x0A" "n \<noteq> 0x0C" "n \<noteq> 0x0D"
    | "n \<ge> 0x20" "n \<noteq> 0x22" "n \<noteq> 0x5C"
    by linarith
  then show ?thesis
  proof cases
    case 8
    have q: "quoteChar c = [CHR 0x5C, CHR ''u'', CHR ''0'', CHR ''0'',
        ''0123456789abcdef'' ! (n div 16 mod 16), ''0123456789abcdef'' ! (n mod 16)]"
      using 8 by (simp add: quoteChar_def n_def[symmetric] hex4_def Let_def)
    have h: "hexval (''0123456789abcdef'' ! (n div 16 mod 16)) = n div 16 mod 16"
      "hexval (''0123456789abcdef'' ! (n mod 16)) = n mod 16"
      by (rule hexval_digit, simp)+
    from 8 have "16 * (n div 16 mod 16) + n mod 16 = n" by simp
    with h have "char_of (16 * hexval (''0123456789abcdef'' ! (n div 16 mod 16)) +
        hexval (''0123456789abcdef'' ! (n mod 16))) = c"
      by (simp add: c)
    then show ?thesis unfolding q by simp
  next
    case 9
    then have q: "quoteChar c = [c]" by (simp add: quoteChar_def n_def[symmetric] Let_def)
    from 9 have "c \<noteq> CHR 0x22" "c \<noteq> CHR 0x5C" by (auto simp: n_def)
    then show ?thesis unfolding q by simp
  qed (simp_all add: c ch quoteChar_def unescape_def)
qed

lemma unquoteChars_quoted:
  "unquoteChars acc (concat (map quoteChar s) @ CHR 0x22 # rest) = Some (acc @ s, rest)"
proof (induction s arbitrary: acc)
  case Nil
  show ?case by simp
next
  case (Cons c s)
  have "unquoteChars acc (concat (map quoteChar (c # s)) @ CHR 0x22 # rest) =
      unquoteChars acc (quoteChar c @ (concat (map quoteChar s) @ CHR 0x22 # rest))"
    by simp
  also have "\<dots> = unquoteChars (acc @ [c]) (concat (map quoteChar s) @ CHR 0x22 # rest)"
    by (rule unquoteChars_quoteChar)
  also have "\<dots> = Some ((acc @ [c]) @ s, rest)" by (rule Cons.IH)
  finally show ?case by simp
qed

lemma quoteJSONString_inj:
  assumes "quoteJSONString x @ r1 = quoteJSONString y @ r2"
  shows "x = y \<and> r1 = r2"
proof -
  from assms have "concat (map quoteChar x) @ CHR 0x22 # r1 = concat (map quoteChar y) @ CHR 0x22 # r2"
    by (simp add: quoteJSONString_def)
  then have "unquoteChars [] (concat (map quoteChar x) @ CHR 0x22 # r1) =
      unquoteChars [] (concat (map quoteChar y) @ CHR 0x22 # r2)"
    by simp
  then show ?thesis by (simp add: unquoteChars_quoted)
qed

lemma joinLines_Cons:
  "joinLines (s # ss) = s @ (if ss = [] then [] else [CHR '','', CHR 0x0A] @ ''  '' @ joinLines ss)"
  by (cases ss) simp_all

lemma joinLines_quoted_inj:
  "joinLines (map quoteJSONString xs) @ r = joinLines (map quoteJSONString ys) @ r \<Longrightarrow>
     xs \<noteq> [] \<Longrightarrow> ys \<noteq> [] \<Longrightarrow> CHR '','' \<notin> set (take 1 r) \<Longrightarrow> xs = ys"
proof (induction xs arbitrary: ys)
  case Nil
  then show ?case by simp
next
  case (Cons x xs)
  from Cons.prems(3) obtain y ys' where ys: "ys = y # ys'" by (cases ys) auto
  let ?tl = "\<lambda>zs. (if zs = [] then [] else [CHR '','', CHR 0x0A] @ ''  '' @
      joinLines (map quoteJSONString zs)) @ r"
  from Cons.prems(1) have "quoteJSONString x @ ?tl xs = quoteJSONString y @ ?tl ys'"
    unfolding ys by (simp add: joinLines_Cons)
  from quoteJSONString_inj[OF this] have xy: "x = y" and tl: "?tl xs = ?tl ys'" by simp_all
  have "xs = ys'"
  proof (cases "xs = []")
    case True
    show ?thesis
    proof (cases "ys' = []")
      case False
      with True tl have "r = CHR '','' # CHR 0x0A # ''  '' @ joinLines (map quoteJSONString ys') @ r"
        by simp
      then have "CHR '','' \<in> set (take 1 r)" by (cases r) auto
      with Cons.prems(4) show ?thesis by simp
    qed (simp add: True)
  next
    case False
    show ?thesis
    proof (cases "ys' = []")
      case True
      with False tl have "r = CHR '','' # CHR 0x0A # ''  '' @ joinLines (map quoteJSONString xs) @ r"
        by simp
      then have "CHR '','' \<in> set (take 1 r)" by (cases r) auto
      with Cons.prems(4) show ?thesis by simp
    next
      case ne: False
      with False tl have "joinLines (map quoteJSONString xs) @ r =
          joinLines (map quoteJSONString ys') @ r" by simp
      from Cons.IH[OF this False ne Cons.prems(4)] show ?thesis .
    qed
  qed
  with xy ys show ?case by simp
qed

lemma JSON_stringify_inj: "JSON_stringify xs = JSON_stringify ys \<Longrightarrow> xs = ys"
proof (cases "xs = []")
  case True
  assume "JSON_stringify xs = JSON_stringify ys"
  with True show ?thesis by (auto simp: JSON_stringify_def split: if_splits)
next
  case False
  assume eq: "JSON_stringify xs = JSON_stringify ys"
  with False have ys: "ys \<noteq> []" by (auto simp: JSON_stringify_def split: if_splits)
  from eq False ys have "joinLines (map quoteJSONString xs) @ [CHR 0x0A, CHR '']''] =
      joinLines (map quoteJSONString ys) @ [CHR 0x0A, CHR '']'']"
    by (simp add: JSON_stringify_def)
  from joinLines_quoted_inj[OF this False ys] show ?thesis by simp
qed


section \<open>The walks of the other examples\<close>



lemma demo_world_facts:
  "list_all valid_name [''home'', ''u'']" "descend (root demo_world) [''home'', ''u''] = Some demo_base"
  "wf_node demo_base" "height demo_base < 3" "absolute_path [''home'', ''u''] = ''/home/u''"
  by code_simp+

lemma locked_walk:
  "listFilesRecursively 2 ''/srv'' ''/srv'' locked_world =
     Some (Inl (SystemError EACCES),
           locked_world\<lparr>fs_log := [ReaddirCall ''/srv'' None,
                                     ReaddirCall ''/srv/locked'' (Some EACCES)]\<rparr>)"
  by code_simp

lemma locked_world_facts:
  "list_all valid_name [''srv'']" "descend (root locked_world) [''srv''] = Some locked_base"
  "wf_node locked_base" "height locked_base < 2" "''/srv'' = absolute_path [''srv'']"
  "descend locked_base [''locked''] = Some (BadDir EACCES)"
  by code_simp+



lemma greek_walk_complete:
  "listFilesRecursively 2 ''/srv'' ''/srv''
     (stderr_write (''Handling completions/complete request'' @ [CHR 0x0A]) greek_world) =
     Some (Inr [alpha_sigma],
           greek_world\<lparr>fs_log := [ReaddirCall ''/srv'' None],
                        stderr := [''Handling completions/complete request'' @ [CHR 0x0A]]\<rparr>)"
  by code_simp

lemma lower_greek_facts:
  "toLowerCase (lower_greek False) alpha_sigma = [CHR 0xCE, CHR 0xB1, CHR 0xCF, CHR 0x82]"
  "toLowerCase (lower_greek False) sigma = [CHR 0xCF, CHR 0x83]"
  by code_simp+

section \<open>Pathnames\<close>

lemma unreserved_valid: "list_all unreserved_name names \<Longrightarrow> list_all valid_name names"
  by (induction names) (simp_all add: unreserved_name_def)

lemma file_url_pathname_keeps: "keeps_file_paths file_url_pathname"
  unfolding keeps_file_paths_def
proof (intro allI impI)
  fix names
  assume u: "list_all unreserved_name names"
  have d8: "drop 8 (''file://'' @ absolute_path names) = joinSep names"
    and d7: "drop 7 (''file://'' @ absolute_path names) = absolute_path names"
    and pre: "prefix ''file:///'' (''file://'' @ absolute_path names)"
    by (simp_all add: absolute_path_def)
  have "joinSep names = [] \<or> list_all unreserved_name (splitSep (joinSep names))"
  proof (cases "names = []")
    case True
    then show ?thesis by simp
  next
    case False
    from splitSep_joinSep[OF False no_sep_valid[OF unreserved_valid[OF u]]] u show ?thesis by simp
  qed
  with pre show "file_url_pathname (''file://'' @ absolute_path names) = Some (absolute_path names)"
    unfolding file_url_pathname_def d8 d7 by simp
qed

lemma splitSep_set: "c \<notin> set p \<Longrightarrow> \<forall>s \<in> set (splitSep p). c \<notin> set s"
proof (induction p)
  case Nil
  show ?case by simp
next
  case (Cons a p)
  then have ih: "\<forall>s \<in> set (splitSep p). c \<notin> set s" and a: "c \<noteq> a" by auto
  show ?case
  proof (cases "splitSep p")
    case Nil
    then show ?thesis by simp
  next
    case (Cons s ss)
    with ih a show ?thesis by auto
  qed
qed

lemma hash_namei:
  "cur \<in> {root hash_world, hash_dir} \<Longrightarrow> set parents \<subseteq> {root hash_world, hash_dir} \<Longrightarrow>
     \<forall>s \<in> set segs. CHR ''#'' \<notin> set s \<Longrightarrow> namei cur parents segs \<noteq> Inr (Leaf t r)"
proof (induction segs arbitrary: cur parents)
  case Nil
  then show ?case by (auto simp: hash_world_def hash_dir_def)
next
  case (Cons s segs)
  from Cons.prems(3) have s: "CHR ''#'' \<notin> set s" and rest: "\<forall>s \<in> set segs. CHR ''#'' \<notin> set s"
    by simp_all
  note ih = Cons.IH[OF _ _ rest]
  have same: "namei cur parents segs \<noteq> Inr (Leaf t r)"
    by (rule ih[OF Cons.prems(1,2)])
  have up: "(case parents of [] \<Rightarrow> namei cur [] segs | p # ps \<Rightarrow> namei p ps segs) \<noteq> Inr (Leaf t r)"
  proof (cases parents)
    case Nil
    from ih[OF Cons.prems(1), of "[]"] Nil show ?thesis by simp
  next
    case (Cons p ps)
    with Cons.prems(2) have "p \<in> {root hash_world, hash_dir}"
      "set ps \<subseteq> {root hash_world, hash_dir}" by auto
    from ih[OF this] Cons show ?thesis by simp
  qed
  have down: "namei hash_dir (cur # parents) segs \<noteq> Inr (Leaf t r)"
    using ih[of hash_dir "cur # parents"] Cons.prems(1,2) by simp
  from s have nohash: "s \<noteq> ''a#b.txt''" by auto
  from Cons.prems(1) nohash obtain es where cur: "cur = Dir es"
    and m: "map_of es s = None \<or> map_of es s = Some hash_dir"
    by (auto simp: hash_world_def hash_dir_def)
  from same up down m show ?case unfolding cur by auto
qed

lemma hash_unreachable:
  assumes "CHR ''#'' \<notin> set p"
  shows "lookup_path hash_world p \<noteq> Inr (Leaf t r)"
proof (cases "p = []")
  case True
  then show ?thesis by (simp add: lookup_path_def)
next
  case False
  have c: "splitSep (cwd hash_world) = [[], ''srv'']" by code_simp
  have "\<forall>s \<in> set ((if isAbsolute p then [] else splitSep (cwd hash_world)) @ splitSep p).
      CHR ''#'' \<notin> set s"
    using splitSep_set[OF assms] by (simp add: c)
  from hash_namei[OF _ _ this, of "root hash_world" "[]"] False show ?thesis
    by (simp add: lookup_path_def)
qed

lemma hash_file: "lookup_path hash_world ''/srv/a#b.txt'' = Inr (Leaf RegularT (Inr ''secret''))"
  by code_simp

section \<open>The recursive walk\<close>




text \<open>
  C8. Whenever a walk returns and one of the directory reads it made failed with \<open>e\<close>,
  its result is that error and no list, and the failed read is the last call the walk
  made: nothing is tried after it. And on a well-formed tree a walk with enough fuel
  does return, with a result of which this holds; when a directory below the base
  directory cannot be listed, the result is an error, never a list: the error of a
  directory that cannot be listed, or the range error of a directory with more entries
  than the platform can spread, where the walk meets that one first.
\<close>

theorem walk_aborts_on_failed_read:
  "(\<forall>r w' p e. listFilesRecursively fuel BASE_DIR dir w = Some (r, w') \<and>
       ReaddirCall p (Some e) \<in> set (drop (length (fs_log w)) (fs_log w')) \<longrightarrow>
     r = Inl (SystemError e) \<and> last (fs_log w') = ReaddirCall p (Some e)) \<and>
   (\<forall>bs base. BASE_DIR = absolute_path bs \<and> dir = BASE_DIR \<and> list_all valid_name bs \<and>
       descend (root w) bs = Some base \<and> wf_node base \<and> height base < fuel \<longrightarrow>
     (\<exists>r w'. listFilesRecursively fuel BASE_DIR dir w = Some (r, w') \<and>
        (\<forall>p e. ReaddirCall p (Some e) \<in> set (drop (length (fs_log w)) (fs_log w')) \<longrightarrow>
           r = Inl (SystemError e) \<and> last (fs_log w') = ReaddirCall p (Some e)) \<and>
        ((\<exists>segs e. descend base segs = Some (BadDir e)) \<longrightarrow>
           (\<exists>x. r = Inl x \<and>
              ((\<exists>segs en. x = SystemError en \<and> descend base segs = Some (BadDir en)) \<or>
               (\<exists>m. x = RangeError m \<and> oversized (max_spread w) base))))))"
proof -
  have abort: "r = Inl (SystemError e) \<and> last (fs_log w') = ReaddirCall p (Some e)"
    if run: "listFilesRecursively fuel BASE_DIR dir w = Some (r, w')"
      and failed: "ReaddirCall p (Some e) \<in> set (drop (length (fs_log w)) (fs_log w'))"
    for r w' p e
  proof -
    from walk_trace(1)[OF run] obtain new where
      new: "fs_log w' = fs_log w @ new" "trace_of r new" by blast
    from failed new(1) have mem: "ReaddirCall p (Some e) \<in> set new" by simp
    show ?thesis
    proof (cases r)
      case (Inr files)
      with new(2) have "list_all (\<lambda>c. call_errno c = None) new" by (simp add: trace_of_def)
      with mem show ?thesis by (auto simp: list_all_iff)
    next
      case (Inl x)
      with new(2) consider "list_all (\<lambda>c. call_errno c = None) new"
        | oks q en where "new = oks @ [ReaddirCall q (Some en)]" "x = SystemError en"
            "list_all (\<lambda>c. call_errno c = None) oks"
        by (auto simp: trace_of_def)
      then show ?thesis
      proof cases
        case 1
        with mem show ?thesis by (auto simp: list_all_iff)
      next
        case 2
        from mem 2(1,3) have "ReaddirCall p (Some e) = ReaddirCall q (Some en)"
          by (auto simp: list_all_iff)
        with 2 new(1) Inl show ?thesis by simp
      qed
    qed
  qed
  have total: "\<exists>r w'. listFilesRecursively fuel BASE_DIR dir w = Some (r, w') \<and>
        (\<forall>p e. ReaddirCall p (Some e) \<in> set (drop (length (fs_log w)) (fs_log w')) \<longrightarrow>
           r = Inl (SystemError e) \<and> last (fs_log w') = ReaddirCall p (Some e)) \<and>
        ((\<exists>segs e. descend base segs = Some (BadDir e)) \<longrightarrow>
           (\<exists>x. r = Inl x \<and>
              ((\<exists>segs en. x = SystemError en \<and> descend base segs = Some (BadDir en)) \<or>
               (\<exists>m. x = RangeError m \<and> oversized (max_spread w) base))))"
    if h: "BASE_DIR = absolute_path bs \<and> dir = BASE_DIR \<and> list_all valid_name bs \<and>
       descend (root w) bs = Some base \<and> wf_node base \<and> height base < fuel"
    for bs base
  proof -
    from h have bs: "list_all valid_name bs" and base: "descend (root w) bs = Some base"
      and wf: "wf_node base" and fuel: "height base < fuel"
      and B: "BASE_DIR = absolute_path bs" "dir = absolute_path bs"
      by simp_all
    from walk_total[OF bs base wf fuel] obtain w' where
      run: "listFilesRecursively fuel BASE_DIR dir w =
        Some (map_sum id (map joinSep) (walk_result (max_spread w) base), w')"
      unfolding B by blast
    let ?r = "map_sum id (map joinSep) (walk_result (max_spread w) base)"
    have err: "\<exists>x. ?r = Inl x \<and>
          ((\<exists>segs en. x = SystemError en \<and> descend base segs = Some (BadDir en)) \<or>
           (\<exists>m. x = RangeError m \<and> oversized (max_spread w) base))"
      if bad: "\<exists>segs e. descend base segs = Some (BadDir e)"
    proof (cases "walk_result (max_spread w) base")
      case (Inl x)
      from bad have "\<nexists>t r. base = Leaf t r" by (auto simp: descend_Leaf_Cons)
      with walk_result_causes[OF wf Inl] Inl show ?thesis by simp
    next
      case (Inr ps)
      from bad obtain segs e where "descend base segs = Some (BadDir e)" by blast
      from leaf_paths_BadDir[OF wf this] walk_result_Inr(1)[OF Inr] show ?thesis by simp
    qed
    from run abort[OF run] err show ?thesis by blast
  qed
  from abort total show ?thesis by blast
qed

theorem walk_aborts_on_failed_read_witness:
  "listFilesRecursively 2 ''/srv'' ''/srv'' locked_world =
     Some (Inl (SystemError EACCES),
           locked_world\<lparr>fs_log := [ReaddirCall ''/srv'' None,
                                     ReaddirCall ''/srv/locked'' (Some EACCES)]\<rparr>) \<and>
   last (fs_log (locked_world\<lparr>fs_log := [ReaddirCall ''/srv'' None,
                                          ReaddirCall ''/srv/locked'' (Some EACCES)]\<rparr>)) =
     ReaddirCall ''/srv/locked'' (Some EACCES) \<and>
   descend locked_base [''locked''] = Some (BadDir EACCES) \<and>
   (\<exists>x w'. listFilesRecursively 2 ''/srv'' ''/srv'' locked_world = Some (Inl x, w'))"
proof -
  note t = walk_aborts_on_failed_read[of 2 "''/srv''" "''/srv''" locked_world]
  have m: "ReaddirCall ''/srv/locked'' (Some EACCES) \<in>
      set (drop (length (fs_log locked_world))
        (fs_log (locked_world\<lparr>fs_log := [ReaddirCall ''/srv'' None,
                                          ReaddirCall ''/srv/locked'' (Some EACCES)]\<rparr>)))"
    by (simp add: locked_world_def)
  from t[THEN conjunct1, rule_format, OF conjI[OF locked_walk m]]
  have a: "last (fs_log (locked_world\<lparr>fs_log := [ReaddirCall ''/srv'' None,
                                          ReaddirCall ''/srv/locked'' (Some EACCES)]\<rparr>)) =
     ReaddirCall ''/srv/locked'' (Some EACCES)" by simp
  have h: "''/srv'' = absolute_path [''srv''] \<and> ''/srv'' = ''/srv'' \<and> list_all valid_name [''srv''] \<and>
       descend (root locked_world) [''srv''] = Some locked_base \<and> wf_node locked_base \<and>
       height locked_base < 2"
    using locked_world_facts by simp
  from t[THEN conjunct2, rule_format, OF h] locked_world_facts(6)
  have b: "\<exists>x w'. listFilesRecursively 2 ''/srv'' ''/srv'' locked_world = Some (Inl x, w')"
    by blast
  from a b locked_walk locked_world_facts(6) show ?thesis by simp
qed

section \<open>The list-resources handler\<close>

text \<open>
  C5. When the walk returns a list, the list-resources handler returns one resource for
  each of its entries, in the same order and in the same world: the name is the entry
  (the relative path), the MIME type is \<^verbatim>\<open>text/plain\<close>, and the URI is \<^verbatim>\<open>file://\<close> followed by
  the base directory joined with the entry. For a well-formed tree under the base
  directory and enough fuel the handler returns. When it returns a list, the walk has
  returned the relative paths of the entries below the base directory that are not
  directories, none twice and nothing else, and the list has one resource for each of
  them, in the order of the walk, with \<^verbatim>\<open>file://\<close> and the absolute path of the entry (the
  names of the base directory followed by the names that lead from it to the entry) as
  the URI and the relative path as the name. It fails only where the walk does: the
  base is no directory, a directory cannot be listed, or a directory holds more entries
  than the platform can spread.
\<close>

theorem list_resources_from_walk:
  "(\<forall>files w'. listFilesRecursively fuel BASE_DIR BASE_DIR w = Some (Inr files, w') \<longrightarrow>
      list_resources fuel BASE_DIR w =
        Some (Inr (map (\<lambda>file. Resource (''file://'' @ join BASE_DIR file) ''text/plain'' file) files),
              w')) \<and>
   (\<forall>bs base. BASE_DIR = absolute_path bs \<and> list_all valid_name bs \<and>
        descend (root w) bs = Some base \<and> wf_node base \<and> height base < fuel \<longrightarrow>
      (\<exists>r w'. list_resources fuel BASE_DIR w = Some (r, w') \<and>
         (case r of
            Inl e \<Rightarrow> listFilesRecursively fuel BASE_DIR BASE_DIR w = Some (Inl e, w') \<and>
                     ((\<exists>t r. base = Leaf t r) \<or>
                      (\<exists>segs en. e = SystemError en \<and> descend base segs = Some (BadDir en)) \<or>
                      (\<exists>m. e = RangeError m \<and> oversized (max_spread w) base))
          | Inr resources \<Rightarrow>
              (\<exists>ps. distinct ps \<and> set ps = {segs. \<exists>t r. descend base segs = Some (Leaf t r)} \<and>
                 listFilesRecursively fuel BASE_DIR BASE_DIR w = Some (Inr (map joinSep ps), w') \<and>
                 resources =
                   map (\<lambda>segs. Resource (''file://'' @ absolute_path (bs @ segs)) ''text/plain''
                                  (joinSep segs)) ps))))"
proof (intro conjI allI impI)
  fix files w'
  assume "listFilesRecursively fuel BASE_DIR BASE_DIR w = Some (Inr files, w')"
  then show "list_resources fuel BASE_DIR w =
       Some (Inr (map (\<lambda>file. Resource (''file://'' @ join BASE_DIR file) ''text/plain'' file) files),
             w')"
    by (simp add: list_resources_def)
next
  fix bs base
  assume h: "BASE_DIR = absolute_path bs \<and> list_all valid_name bs \<and>
         descend (root w) bs = Some base \<and> wf_node base \<and> height base < fuel"
  then have bs: "list_all valid_name bs" and base: "descend (root w) bs = Some base"
    and wf: "wf_node base" and fuel: "height base < fuel" and B: "BASE_DIR = absolute_path bs"
    by simp_all
  from walk_total[OF bs base wf fuel] obtain w1 where
    run: "listFilesRecursively fuel BASE_DIR BASE_DIR w =
      Some (map_sum id (map joinSep) (walk_result (max_spread w) base), w1)"
    unfolding B by blast
  show "\<exists>r w'. list_resources fuel BASE_DIR w = Some (r, w') \<and>
         (case r of
            Inl e \<Rightarrow> listFilesRecursively fuel BASE_DIR BASE_DIR w = Some (Inl e, w') \<and>
                     ((\<exists>t r. base = Leaf t r) \<or>
                      (\<exists>segs en. e = SystemError en \<and> descend base segs = Some (BadDir en)) \<or>
                      (\<exists>m. e = RangeError m \<and> oversized (max_spread w) base))
          | Inr resources \<Rightarrow>
              (\<exists>ps. distinct ps \<and> set ps = {segs. \<exists>t r. descend base segs = Some (Leaf t r)} \<and>
                 listFilesRecursively fuel BASE_DIR BASE_DIR w = Some (Inr (map joinSep ps), w') \<and>
                 resources =
                   map (\<lambda>segs. Resource (''file://'' @ absolute_path (bs @ segs)) ''text/plain''
                                  (joinSep segs)) ps))"
  proof (cases "walk_result (max_spread w) base")
    case (Inl e)
    from run Inl have "list_resources fuel BASE_DIR w = Some (Inl e, w1)"
      and "listFilesRecursively fuel BASE_DIR BASE_DIR w = Some (Inl e, w1)"
      by (simp_all add: list_resources_def)
    with walk_result_causes[OF wf Inl] show ?thesis by simp
  next
    case (Inr ps)
    from walk_result_Inr(1)[OF Inr] have lp: "leaf_paths base = Inr ps" .
    have mem: "segs \<in> set ps \<longleftrightarrow> (\<exists>t r. descend base segs = Some (Leaf t r))" for segs
      by (rule leaf_paths_mem(1)[OF wf lp])
    have j: "join (absolute_path bs) (joinSep segs) = absolute_path (bs @ segs)"
      if "segs \<in> set ps" for segs
    proof -
      from that mem obtain t r where leaf: "descend base segs = Some (Leaf t r)" by blast
      from descend_valid[OF wf leaf] have v: "list_all valid_name segs" by simp
      from lp leaf have "segs \<noteq> []" by (cases segs) auto
      from join_absolute[OF bs v this] show ?thesis .
    qed
    from run Inr have w: "listFilesRecursively fuel BASE_DIR BASE_DIR w = Some (Inr (map joinSep ps), w1)"
      by simp
    then have "list_resources fuel BASE_DIR w =
        Some (Inr (map (\<lambda>file. Resource (''file://'' @ join (absolute_path bs) file) ''text/plain'' file)
                    (map joinSep ps)), w1)"
      by (simp add: list_resources_def B)
    moreover have "map (\<lambda>file. Resource (''file://'' @ join (absolute_path bs) file) ''text/plain'' file)
        (map joinSep ps) =
      map (\<lambda>segs. Resource (''file://'' @ absolute_path (bs @ segs)) ''text/plain'' (joinSep segs)) ps"
      using j by simp
    moreover have "distinct ps" by (rule leaf_paths_distinct(1)[OF lp wf])
    moreover have "set ps = {segs. \<exists>t r. descend base segs = Some (Leaf t r)}"
      using mem by auto
    ultimately show ?thesis using w by auto
  qed
qed

theorem list_resources_from_walk_witness:
  "list_resources 3 ''/home/u'' demo_world =
     Some (Inr [Resource ''file:///home/u/a.txt'' ''text/plain'' ''a.txt'',
                Resource ''file:///home/u/src/Foo.txt'' ''text/plain'' ''src/Foo.txt'',
                Resource ''file:///home/u/src/baz.txt'' ''text/plain'' ''src/baz.txt'',
                Resource ''file:///home/u/bar/foobar.md'' ''text/plain'' ''bar/foobar.md''],
           demo_world\<lparr>fs_log := [ReaddirCall ''/home/u'' None, ReaddirCall ''/home/u/src'' None,
                                   ReaddirCall ''/home/u/bar'' None]\<rparr>) \<and>
   (\<exists>ps. distinct ps \<and> set ps = {segs. \<exists>t r. descend demo_base segs = Some (Leaf t r)} \<and>
      [Resource ''file:///home/u/a.txt'' ''text/plain'' ''a.txt'',
       Resource ''file:///home/u/src/Foo.txt'' ''text/plain'' ''src/Foo.txt'',
       Resource ''file:///home/u/src/baz.txt'' ''text/plain'' ''src/baz.txt'',
       Resource ''file:///home/u/bar/foobar.md'' ''text/plain'' ''bar/foobar.md''] =
      map (\<lambda>segs. Resource (''file://'' @ absolute_path ([''home'', ''u''] @ segs)) ''text/plain''
                     (joinSep segs)) ps)"
proof -
  have j: "map (\<lambda>file. Resource (''file://'' @ join ''/home/u'' file) ''text/plain'' file)
      [''a.txt'', ''src/Foo.txt'', ''src/baz.txt'', ''bar/foobar.md''] =
     [Resource ''file:///home/u/a.txt'' ''text/plain'' ''a.txt'',
      Resource ''file:///home/u/src/Foo.txt'' ''text/plain'' ''src/Foo.txt'',
      Resource ''file:///home/u/src/baz.txt'' ''text/plain'' ''src/baz.txt'',
      Resource ''file:///home/u/bar/foobar.md'' ''text/plain'' ''bar/foobar.md'']"
    by code_simp
  note t = list_resources_from_walk[of 3 "''/home/u''" demo_world]
  from t[THEN conjunct1, rule_format, OF demo_walk] j
  have a: "list_resources 3 ''/home/u'' demo_world =
     Some (Inr [Resource ''file:///home/u/a.txt'' ''text/plain'' ''a.txt'',
                Resource ''file:///home/u/src/Foo.txt'' ''text/plain'' ''src/Foo.txt'',
                Resource ''file:///home/u/src/baz.txt'' ''text/plain'' ''src/baz.txt'',
                Resource ''file:///home/u/bar/foobar.md'' ''text/plain'' ''bar/foobar.md''],
           demo_world\<lparr>fs_log := [ReaddirCall ''/home/u'' None, ReaddirCall ''/home/u/src'' None,
                                   ReaddirCall ''/home/u/bar'' None]\<rparr>)"
    by simp
  have h: "''/home/u'' = absolute_path [''home'', ''u''] \<and> list_all valid_name [''home'', ''u''] \<and>
      descend (root demo_world) [''home'', ''u''] = Some demo_base \<and> wf_node demo_base \<and>
      height demo_base < 3"
    using demo_world_facts by simp
  from t[THEN conjunct2, rule_format, OF h] a show ?thesis by auto
qed

section \<open>The call-tool handler\<close>

text \<open>
  C6. A call-tool request whose name is neither \<^verbatim>\<open>list-files\<close> nor \<^verbatim>\<open>read-file\<close> fails with
  the error "Tool not found" and leaves the world as it was, so it does not touch the
  filesystem at all; and whatever the request, a call that returns leaves the filesystem
  (the tree and the working directory) as it found it.
\<close>

theorem call_tool_unknown_name_and_read_only:
  "(name request \<noteq> ''list-files'' \<and> name request \<noteq> ''read-file'' \<longrightarrow>
      call_tool fuel BASE_DIR request w = Some (Inl (Error ''Tool not found''), w)) \<and>
   (\<forall>r w'. call_tool fuel BASE_DIR request w = Some (r, w') \<longrightarrow>
      root w' = root w \<and> cwd w' = cwd w)"
proof (intro conjI impI allI)
  assume "name request \<noteq> ''list-files'' \<and> name request \<noteq> ''read-file''"
  then show "call_tool fuel BASE_DIR request w = Some (Inl (Error ''Tool not found''), w)"
    by (simp add: call_tool_def)
next
  fix r w'
  assume ct: "call_tool fuel BASE_DIR request w = Some (r, w')"
  have "root w' = root w \<and> cwd w' = cwd w"
  proof (cases "name request = ''list-files''")
    case True
    let ?flag = "nullish_or (optional_get (arguments request) ''recursive'') (JBool False)"
    show ?thesis
    proof (cases "truthy ?flag")
      case t: True
      with ct True obtain x w1 where
        walk: "listFilesRecursively fuel BASE_DIR BASE_DIR w = Some (x, w1)" and "w' = w1"
        by (auto simp: call_tool_def Let_def split: option.splits sum.splits prod.splits)
      with walk_preserves(1)[OF walk] show ?thesis by simp
    next
      case f: False
      from readdir_world[of BASE_DIR w] obtain oc where
        "snd (readdir BASE_DIR w) = log_call (ReaddirCall BASE_DIR oc) w" ..
      with ct True f show ?thesis
        by (auto simp: call_tool_def Let_def split: option.splits sum.splits prod.splits)
    qed
  next
    case False
    show ?thesis
    proof (cases "name request = ''read-file''")
      case rf: True
      let ?path = "optional_get (arguments request) ''path''"
      show ?thesis
      proof (cases "truthy ?path")
        case t: True
        show ?thesis
        proof (cases "join_value BASE_DIR ?path")
          case (Inl e)
          with ct False rf t show ?thesis by (simp add: call_tool_def Let_def)
        next
          case (Inr fp)
          from readFile_world[of fp w] obtain oc where
            "snd (readFile fp w) = log_call (ReadFileCall fp oc) w" ..
          with ct False rf t Inr show ?thesis
            by (auto simp: call_tool_def Let_def split: sum.splits prod.splits)
        qed
      next
        case f: False
        with ct False rf show ?thesis by (simp add: call_tool_def Let_def)
      qed
    next
      case nf: False
      with ct False show ?thesis by (simp add: call_tool_def)
    qed
  qed
  then show "root w' = root w" and "cwd w' = cwd w" by simp_all
qed

theorem call_tool_unknown_name_and_read_only_witness:
  "call_tool 3 ''/home/u'' \<lparr>name = ''delete-file'', arguments = JObj []\<rparr> demo_world
     = Some (Inl (Error ''Tool not found''), demo_world) \<and>
   (\<exists>r w'. call_tool 3 ''/home/u''
        \<lparr>name = ''read-file'', arguments = JObj [(''path'', JStr ''a.txt'')]\<rparr> demo_world = Some (r, w') \<and>
      root w' = root demo_world \<and> cwd w' = cwd demo_world \<and> fs_log w' \<noteq> fs_log demo_world)"
proof -
  have run: "call_tool 3 ''/home/u''
        \<lparr>name = ''read-file'', arguments = JObj [(''path'', JStr ''a.txt'')]\<rparr> demo_world
      = Some (Inr [TextContent ''hello''], log_call (ReadFileCall ''/home/u/a.txt'' None) demo_world)"
    by (simp add: call_tool_def join_def normalize_path_def normalizeString_def isAbsolute_def
        trailingSeparator_def readFile_def lookup_path_def demo_world_def demo_root_def demo_base_def)
  from call_tool_unknown_name_and_read_only
    [of "\<lparr>name = ''delete-file'', arguments = JObj []\<rparr>" 3 "''/home/u''" demo_world]
  have a: "call_tool 3 ''/home/u'' \<lparr>name = ''delete-file'', arguments = JObj []\<rparr> demo_world
     = Some (Inl (Error ''Tool not found''), demo_world)" by simp
  from call_tool_unknown_name_and_read_only
    [of "\<lparr>name = ''read-file'', arguments = JObj [(''path'', JStr ''a.txt'')]\<rparr>" 3 "''/home/u''" demo_world]
    run
  have b: "root (log_call (ReadFileCall ''/home/u/a.txt'' None) demo_world) = root demo_world \<and>
     cwd (log_call (ReadFileCall ''/home/u/a.txt'' None) demo_world) = cwd demo_world" by blast
  show ?thesis using a b run by (simp add: log_call_def)
qed

text \<open>
  C3. A \<^verbatim>\<open>read-file\<close> call whose \<^verbatim>\<open>path\<close> argument is missing or the empty string fails with
  the error "Path is required" and leaves the world as it was: no call to the filesystem
  has been made. When the argument is a non-empty string that, joined to the base
  directory, names a readable file, the call returns exactly the text of that file, after
  one read of it.
\<close>

theorem call_tool_read_file:
  assumes "name request = ''read-file''"
  shows "(optional_get (arguments request) ''path'' = JUndefined \<or>
          optional_get (arguments request) ''path'' = JStr [] \<longrightarrow>
            call_tool fuel BASE_DIR request w = Some (Inl (Error ''Path is required''), w)) \<and>
         (\<forall>p t text. optional_get (arguments request) ''path'' = JStr p \<and> p \<noteq> [] \<and>
             lookup_path w (join BASE_DIR p) = Inr (Leaf t (Inr text)) \<longrightarrow>
            call_tool fuel BASE_DIR request w =
              Some (Inr [TextContent text], log_call (ReadFileCall (join BASE_DIR p) None) w))"
  using assms by (auto simp: call_tool_def Let_def readFile_def)

theorem call_tool_read_file_witness:
  "call_tool 3 ''/home/u'' \<lparr>name = ''read-file'', arguments = JObj []\<rparr> demo_world =
     Some (Inl (Error ''Path is required''), demo_world) \<and>
   call_tool 3 ''/home/u'' \<lparr>name = ''read-file'', arguments = JObj [(''path'', JStr [])]\<rparr>
       demo_world =
     Some (Inl (Error ''Path is required''), demo_world) \<and>
   call_tool 3 ''/home/u''
       \<lparr>name = ''read-file'', arguments = JObj [(''path'', JStr ''src/Foo.txt'')]\<rparr> demo_world =
     Some (Inr [TextContent ''foo''],
           log_call (ReadFileCall ''/home/u/src/Foo.txt'' None) demo_world)"
proof -
  have n: "name \<lparr>name = ''read-file'', arguments = a\<rparr> = ''read-file''" for a by simp
  have j: "join ''/home/u'' ''src/Foo.txt'' = ''/home/u/src/Foo.txt''" by code_simp
  have l: "lookup_path demo_world ''/home/u/src/Foo.txt'' = Inr (Leaf RegularT (Inr ''foo''))"
    by code_simp
  show ?thesis
    using call_tool_read_file[OF n, of "JObj []" 3 "''/home/u''" demo_world]
      call_tool_read_file[OF n, of "JObj [(''path'', JStr [])]" 3 "''/home/u''" demo_world]
      call_tool_read_file[OF n, of "JObj [(''path'', JStr ''src/Foo.txt'')]" 3 "''/home/u''" demo_world]
    by (simp add: j l)
qed

text \<open>
  C2. A \<^verbatim>\<open>list-files\<close> call whose \<^verbatim>\<open>recursive\<close> flag is absent or \<^verbatim>\<open>false\<close> returns what one
  \<^verbatim>\<open>readdir\<close> of the base directory gives: when the base directory can be listed, the names
  of its entries (files and directories alike) in the order of the listing, after that
  single call. With the flag \<^verbatim>\<open>true\<close> it returns the output of the recursive walk. In both
  cases the list is serialised as JSON text, and a failure is wrapped in "Failed to list
  files". The text determines the list: two lists with the same text are the same list.
\<close>

theorem call_tool_list_files:
  assumes "name request = ''list-files''"
  shows "(optional_get (arguments request) ''recursive'' = JUndefined \<or>
          optional_get (arguments request) ''recursive'' = JBool False \<longrightarrow>
            call_tool fuel BASE_DIR request w =
              (case readdir BASE_DIR w of
                 (Inr names, w') \<Rightarrow> Some (Inr [TextContent (JSON_stringify names)], w')
               | (Inl error, w') \<Rightarrow>
                   Some (Inl (Error (''Failed to list files: '' @ message error)), w')) \<and>
            (\<forall>es. lookup_path w BASE_DIR = Inr (Dir es) \<longrightarrow>
               call_tool fuel BASE_DIR request w =
                 Some (Inr [TextContent (JSON_stringify (map fst es))],
                       log_call (ReaddirCall BASE_DIR None) w))) \<and>
         (optional_get (arguments request) ''recursive'' = JBool True \<longrightarrow>
            call_tool fuel BASE_DIR request w =
              (case listFilesRecursively fuel BASE_DIR BASE_DIR w of
                 None \<Rightarrow> None
               | Some (Inr files, w') \<Rightarrow> Some (Inr [TextContent (JSON_stringify files)], w')
               | Some (Inl error, w') \<Rightarrow>
                   Some (Inl (Error (''Failed to list files: '' @ message error)), w'))) \<and>
         (\<forall>xs ys. JSON_stringify xs = JSON_stringify ys \<longrightarrow> xs = ys)"
proof -
  have inj: "\<forall>xs ys. JSON_stringify xs = JSON_stringify ys \<longrightarrow> xs = ys"
    using JSON_stringify_inj by blast
  from assms have "(optional_get (arguments request) ''recursive'' = JUndefined \<or>
          optional_get (arguments request) ''recursive'' = JBool False \<longrightarrow>
            call_tool fuel BASE_DIR request w =
              (case readdir BASE_DIR w of
                 (Inr names, w') \<Rightarrow> Some (Inr [TextContent (JSON_stringify names)], w')
               | (Inl error, w') \<Rightarrow>
                   Some (Inl (Error (''Failed to list files: '' @ message error)), w')) \<and>
            (\<forall>es. lookup_path w BASE_DIR = Inr (Dir es) \<longrightarrow>
               call_tool fuel BASE_DIR request w =
                 Some (Inr [TextContent (JSON_stringify (map fst es))],
                       log_call (ReaddirCall BASE_DIR None) w))) \<and>
         (optional_get (arguments request) ''recursive'' = JBool True \<longrightarrow>
            call_tool fuel BASE_DIR request w =
              (case listFilesRecursively fuel BASE_DIR BASE_DIR w of
                 None \<Rightarrow> None
               | Some (Inr files, w') \<Rightarrow> Some (Inr [TextContent (JSON_stringify files)], w')
               | Some (Inl error, w') \<Rightarrow>
                   Some (Inl (Error (''Failed to list files: '' @ message error)), w')))"
    by (auto simp: call_tool_def Let_def readdir_def split: prod.splits sum.splits)
  with inj show ?thesis by blast
qed

theorem call_tool_list_files_witness:
  "call_tool 3 ''/home/u'' \<lparr>name = ''list-files'', arguments = JUndefined\<rparr> demo_world =
     Some (Inr [TextContent
                  (''['' @ [CHR 0x0A] @
                   ''  '' @ [CHR 0x22] @ ''a.txt'' @ [CHR 0x22] @ '','' @ [CHR 0x0A] @
                   ''  '' @ [CHR 0x22] @ ''src'' @ [CHR 0x22] @ '','' @ [CHR 0x0A] @
                   ''  '' @ [CHR 0x22] @ ''bar'' @ [CHR 0x22] @ [CHR 0x0A] @
                   '']'')],
           log_call (ReaddirCall ''/home/u'' None) demo_world) \<and>
   call_tool 3 ''/home/u''
       \<lparr>name = ''list-files'', arguments = JObj [(''recursive'', JBool False)]\<rparr> demo_world =
     Some (Inr [TextContent
                  (''['' @ [CHR 0x0A] @
                   ''  '' @ [CHR 0x22] @ ''a.txt'' @ [CHR 0x22] @ '','' @ [CHR 0x0A] @
                   ''  '' @ [CHR 0x22] @ ''src'' @ [CHR 0x22] @ '','' @ [CHR 0x0A] @
                   ''  '' @ [CHR 0x22] @ ''bar'' @ [CHR 0x22] @ [CHR 0x0A] @
                   '']'')],
           log_call (ReaddirCall ''/home/u'' None) demo_world) \<and>
   call_tool 3 ''/home/u''
       \<lparr>name = ''list-files'', arguments = JObj [(''recursive'', JBool True)]\<rparr> demo_world =
     Some (Inr [TextContent
                  (''['' @ [CHR 0x0A] @
                   ''  '' @ [CHR 0x22] @ ''a.txt'' @ [CHR 0x22] @ '','' @ [CHR 0x0A] @
                   ''  '' @ [CHR 0x22] @ ''src/Foo.txt'' @ [CHR 0x22] @ '','' @ [CHR 0x0A] @
                   ''  '' @ [CHR 0x22] @ ''src/baz.txt'' @ [CHR 0x22] @ '','' @ [CHR 0x0A] @
                   ''  '' @ [CHR 0x22] @ ''bar/foobar.md'' @ [CHR 0x22] @ [CHR 0x0A] @
                   '']'')],
           demo_world\<lparr>fs_log := [ReaddirCall ''/home/u'' None, ReaddirCall ''/home/u/src'' None,
                                   ReaddirCall ''/home/u/bar'' None]\<rparr>) \<and>
   JSON_stringify [] = ''[]'' \<and>
   JSON_stringify [[CHR ''a'', CHR 0x22, CHR ''b'', CHR 0x0A, CHR 0x01]] =
     ''['' @ [CHR 0x0A] @
     ''  '' @ [CHR 0x22] @ ''a'' @ [CHR 0x5C, CHR 0x22] @ ''b'' @ [CHR 0x5C] @ ''n'' @
       [CHR 0x5C] @ ''u0001'' @ [CHR 0x22] @ [CHR 0x0A] @
     '']'' \<and>
   JSON_stringify [''a,b''] \<noteq> JSON_stringify [''a'', ''b'']"
proof -
  have n: "name \<lparr>name = ''list-files'', arguments = a\<rparr> = ''list-files''" for a by simp
  have l: "lookup_path demo_world ''/home/u'' =
      Inr (Dir [(''a.txt'', Leaf RegularT (Inr ''hello'')),
                (''src'', Dir [(''Foo.txt'', Leaf RegularT (Inr ''foo'')),
                               (''baz.txt'', Leaf RegularT (Inr ''baz''))]),
                (''bar'', Dir [(''foobar.md'', Leaf RegularT (Inr ''bar''))])])"
    by code_simp
  have r: "readdir ''/home/u'' demo_world =
      (Inr [''a.txt'', ''src'', ''bar''], log_call (ReaddirCall ''/home/u'' None) demo_world)"
    by (simp add: readdir_def l)
  have t1: "JSON_stringify [''a.txt'', ''src'', ''bar''] =
      ''['' @ [CHR 0x0A] @
      ''  '' @ [CHR 0x22] @ ''a.txt'' @ [CHR 0x22] @ '','' @ [CHR 0x0A] @
      ''  '' @ [CHR 0x22] @ ''src'' @ [CHR 0x22] @ '','' @ [CHR 0x0A] @
      ''  '' @ [CHR 0x22] @ ''bar'' @ [CHR 0x22] @ [CHR 0x0A] @
      '']''"
    by code_simp
  have t2: "JSON_stringify [''a.txt'', ''src/Foo.txt'', ''src/baz.txt'', ''bar/foobar.md''] =
      ''['' @ [CHR 0x0A] @
      ''  '' @ [CHR 0x22] @ ''a.txt'' @ [CHR 0x22] @ '','' @ [CHR 0x0A] @
      ''  '' @ [CHR 0x22] @ ''src/Foo.txt'' @ [CHR 0x22] @ '','' @ [CHR 0x0A] @
      ''  '' @ [CHR 0x22] @ ''src/baz.txt'' @ [CHR 0x22] @ '','' @ [CHR 0x0A] @
      ''  '' @ [CHR 0x22] @ ''bar/foobar.md'' @ [CHR 0x22] @ [CHR 0x0A] @
      '']''"
    by code_simp
  have t3: "JSON_stringify [] = ''[]''" by code_simp
  have t4: "JSON_stringify [[CHR ''a'', CHR 0x22, CHR ''b'', CHR 0x0A, CHR 0x01]] =
     ''['' @ [CHR 0x0A] @
     ''  '' @ [CHR 0x22] @ ''a'' @ [CHR 0x5C, CHR 0x22] @ ''b'' @ [CHR 0x5C] @ ''n'' @
       [CHR 0x5C] @ ''u0001'' @ [CHR 0x22] @ [CHR 0x0A] @
     '']''"
    by code_simp
  note a = call_tool_list_files[OF n, of JUndefined 3 "''/home/u''" demo_world]
  note b = call_tool_list_files[OF n, of "JObj [(''recursive'', JBool False)]" 3 "''/home/u''" demo_world]
  note c = call_tool_list_files[OF n, of "JObj [(''recursive'', JBool True)]" 3 "''/home/u''" demo_world]
  from a have inj: "JSON_stringify [''a,b''] = JSON_stringify [''a'', ''b''] \<longrightarrow>
      [''a,b''] = [''a'', ''b'']"
    by blast
  then have t5: "JSON_stringify [''a,b''] \<noteq> JSON_stringify [''a'', ''b'']" by auto
  have a': "call_tool 3 ''/home/u'' \<lparr>name = ''list-files'', arguments = JUndefined\<rparr> demo_world =
     Some (Inr [TextContent (JSON_stringify [''a.txt'', ''src'', ''bar''])],
           log_call (ReaddirCall ''/home/u'' None) demo_world)"
    using a by (simp add: l r)
  have b': "call_tool 3 ''/home/u''
       \<lparr>name = ''list-files'', arguments = JObj [(''recursive'', JBool False)]\<rparr> demo_world =
     Some (Inr [TextContent (JSON_stringify [''a.txt'', ''src'', ''bar''])],
           log_call (ReaddirCall ''/home/u'' None) demo_world)"
    using b by (simp add: l r)
  have c': "call_tool 3 ''/home/u''
       \<lparr>name = ''list-files'', arguments = JObj [(''recursive'', JBool True)]\<rparr> demo_world =
     Some (Inr [TextContent
                  (JSON_stringify [''a.txt'', ''src/Foo.txt'', ''src/baz.txt'', ''bar/foobar.md''])],
           demo_world\<lparr>fs_log := [ReaddirCall ''/home/u'' None, ReaddirCall ''/home/u/src'' None,
                                   ReaddirCall ''/home/u/bar'' None]\<rparr>)"
    using c by (simp add: demo_walk)
  from a' b' c' t3 t4 t5 show ?thesis unfolding t1 t2 by blast
qed

section \<open>The completion handler\<close>

text \<open>
  C4, as stated: the completion returns the entries of the walk whose relative path
  contains the query as a case-insensitive substring. It does not where the platform's
  lower-casing of a string depends on the place of a letter in it. The base directory
  holds one file, named by a capital alpha and a capital sigma, and the query is the
  capital sigma: the name contains the query as it stands, whatever is made of case. But
  the lower-casing turns the sigma at the end of the name into the final sigma and the
  sigma of the query into the small sigma, and the completion is empty.
\<close>

theorem complete_case_insensitive_counterexample:
  "listFilesRecursively 2 ''/srv'' ''/srv''
     (stderr_write (''Handling completions/complete request'' @ [CHR 0x0A]) greek_world) =
     Some (Inr [alpha_sigma],
           greek_world\<lparr>fs_log := [ReaddirCall ''/srv'' None],
                        stderr := [''Handling completions/complete request'' @ [CHR 0x0A]]\<rparr>) \<and>
   sublist sigma alpha_sigma \<and>
   (\<forall>f. contains_ignoring_case f alpha_sigma sigma) \<and>
   toLowerCase (lower_greek False) alpha_sigma = [CHR 0xCE, CHR 0xB1, CHR 0xCF, CHR 0x82] \<and>
   toLowerCase (lower_greek False) sigma = [CHR 0xCF, CHR 0x83] \<and>
   complete (lower_greek False) 2 ''/srv''
      \<lparr>ref = PromptRef ''file-contents'', argument_name = ''path'', argument_value = sigma\<rparr>
      greek_world =
     Some (Inr [],
           greek_world\<lparr>fs_log := [ReaddirCall ''/srv'' None],
                        stderr := [''Handling completions/complete request'' @ [CHR 0x0A]]\<rparr>)"
proof -
  have split: "alpha_sigma = [CHR 0xCE, CHR 0x91] @ sigma @ []"
    by (simp add: alpha_sigma_def sigma_def)
  then have s: "sublist sigma alpha_sigma" unfolding sublist_def by blast
  have "list_all2 (\<lambda>a b. f a = f b) sigma sigma" for f :: "char \<Rightarrow> char"
    by (simp add: list_all2_same)
  with split have c: "\<forall>f. contains_ignoring_case f alpha_sigma sigma"
    unfolding contains_ignoring_case_def by blast
  have n: "\<not> includes_str [CHR 0xCE, CHR 0xB1, CHR 0xCF, CHR 0x82] [CHR 0xCF, CHR 0x83]"
    by code_simp
  have h: "ref \<lparr>ref = PromptRef ''file-contents'', argument_name = ''path'',
      argument_value = sigma\<rparr> = PromptRef FILE_PROMPT_NAME"
    by (simp add: FILE_PROMPT_NAME_def)
  have r: "complete (lower_greek False) 2 ''/srv''
      \<lparr>ref = PromptRef ''file-contents'', argument_name = ''path'', argument_value = sigma\<rparr>
      greek_world =
     Some (Inr [],
           greek_world\<lparr>fs_log := [ReaddirCall ''/srv'' None],
                        stderr := [''Handling completions/complete request'' @ [CHR 0x0A]]\<rparr>)"
    unfolding complete_file_prompt[OF h] greek_walk_complete
    by (simp add: lower_greek_facts n)
  from greek_walk_complete s c lower_greek_facts r show ?thesis by blast
qed

text \<open>
  C4, amended. A completion request for the prompt \<^verbatim>\<open>file-contents\<close> with the query \<open>q\<close>
  returns the entries of the recursive walk whose lower-cased relative path contains the
  lower-cased query as a substring, the lower-casing being the platform's: all of them
  and no other, in the order of the walk. Where that lower-casing works character by
  character on the query and on the paths of the walk (on ASCII text it does), these
  are the entries whose relative path contains the query as a case-insensitive
  substring. A failure of the walk is passed on as it is.
\<close>

theorem complete_filters_walk:
  assumes "ref request = PromptRef FILE_PROMPT_NAME"
  shows "complete lower_case fuel BASE_DIR request w =
     (case listFilesRecursively fuel BASE_DIR BASE_DIR
             (stderr_write (''Handling completions/complete request'' @ [CHR 0x0A]) w) of
        None \<Rightarrow> None
      | Some (Inl e, w') \<Rightarrow> Some (Inl e, w')
      | Some (Inr files, w') \<Rightarrow>
          Some (Inr (filter (\<lambda>path. sublist (toLowerCase lower_case (argument_value request))
                                           (toLowerCase lower_case path)) files), w')) \<and>
     (\<forall>f files w'.
        listFilesRecursively fuel BASE_DIR BASE_DIR
          (stderr_write (''Handling completions/complete request'' @ [CHR 0x0A]) w) =
          Some (Inr files, w') \<and>
        (\<forall>s \<in> set (argument_value request # files). toLowerCase lower_case s = map f s) \<longrightarrow>
        complete lower_case fuel BASE_DIR request w =
          Some (Inr (filter (\<lambda>path. contains_ignoring_case f path (argument_value request)) files),
                w'))"
proof (intro conjI allI impI)
  show "complete lower_case fuel BASE_DIR request w =
     (case listFilesRecursively fuel BASE_DIR BASE_DIR
             (stderr_write (''Handling completions/complete request'' @ [CHR 0x0A]) w) of
        None \<Rightarrow> None
      | Some (Inl e, w') \<Rightarrow> Some (Inl e, w')
      | Some (Inr files, w') \<Rightarrow>
          Some (Inr (filter (\<lambda>path. sublist (toLowerCase lower_case (argument_value request))
                                           (toLowerCase lower_case path)) files), w'))"
    unfolding complete_file_prompt[OF assms] includes_str_sublist by (rule refl)
next
  fix f files w'
  assume h: "listFilesRecursively fuel BASE_DIR BASE_DIR
          (stderr_write (''Handling completions/complete request'' @ [CHR 0x0A]) w) =
          Some (Inr files, w') \<and>
        (\<forall>s \<in> set (argument_value request # files). toLowerCase lower_case s = map f s)"
  then have q: "toLowerCase lower_case (argument_value request) = map f (argument_value request)"
    and p: "\<And>path. path \<in> set files \<Longrightarrow> toLowerCase lower_case path = map f path"
    by simp_all
  have "filter (\<lambda>path. includes_str (toLowerCase lower_case path)
                                     (toLowerCase lower_case (argument_value request))) files =
      filter (\<lambda>path. contains_ignoring_case f path (argument_value request)) files"
  proof (rule filter_cong[OF refl])
    fix path
    assume "path \<in> set files"
    from p[OF this] q show "includes_str (toLowerCase lower_case path)
        (toLowerCase lower_case (argument_value request)) =
      contains_ignoring_case f path (argument_value request)"
      by (simp add: includes_str_sublist sublist_map_iff contains_ignoring_case_def)
  qed
  with h show "complete lower_case fuel BASE_DIR request w =
      Some (Inr (filter (\<lambda>path. contains_ignoring_case f path (argument_value request)) files), w')"
    unfolding complete_file_prompt[OF assms] by simp
qed

theorem complete_filters_walk_witness:
  "complete (lower_greek False) 3 ''/home/u''
      \<lparr>ref = PromptRef ''file-contents'', argument_name = ''path'', argument_value = ''foo''\<rparr>
      demo_world =
   Some (Inr [''src/Foo.txt'', ''bar/foobar.md''],
         demo_world\<lparr>fs_log := [ReaddirCall ''/home/u'' None, ReaddirCall ''/home/u/src'' None,
                                   ReaddirCall ''/home/u/bar'' None],
                      stderr := [''Handling completions/complete request'' @ [CHR 0x0A]]\<rparr>) \<and>
   filter (\<lambda>path. contains_ignoring_case toLowerChar path ''foo'')
     [''a.txt'', ''src/Foo.txt'', ''src/baz.txt'', ''bar/foobar.md''] =
     [''src/Foo.txt'', ''bar/foobar.md'']"
proof -
  have f: "\<not> contains_ignoring_case toLowerChar ''a.txt'' ''foo''"
    "contains_ignoring_case toLowerChar ''src/Foo.txt'' ''foo''"
    "\<not> contains_ignoring_case toLowerChar ''src/baz.txt'' ''foo''"
    "contains_ignoring_case toLowerChar ''bar/foobar.md'' ''foo''"
    unfolding includes_lower_iff[symmetric] by code_simp+
  have h: "ref \<lparr>ref = PromptRef ''file-contents'', argument_name = ''path'',
      argument_value = ''foo''\<rparr> = PromptRef FILE_PROMPT_NAME"
    by (simp add: FILE_PROMPT_NAME_def)
  have l: "toLowerCase (lower_greek False) ''foo'' = map toLowerChar ''foo''"
    "toLowerCase (lower_greek False) ''a.txt'' = map toLowerChar ''a.txt''"
    "toLowerCase (lower_greek False) ''src/Foo.txt'' = map toLowerChar ''src/Foo.txt''"
    "toLowerCase (lower_greek False) ''src/baz.txt'' = map toLowerChar ''src/baz.txt''"
    "toLowerCase (lower_greek False) ''bar/foobar.md'' = map toLowerChar ''bar/foobar.md''"
    by code_simp+
  have a: "listFilesRecursively 3 ''/home/u'' ''/home/u''
      (stderr_write (''Handling completions/complete request'' @ [CHR 0x0A]) demo_world) =
      Some (Inr [''a.txt'', ''src/Foo.txt'', ''src/baz.txt'', ''bar/foobar.md''],
            demo_world\<lparr>fs_log := [ReaddirCall ''/home/u'' None, ReaddirCall ''/home/u/src'' None,
                                    ReaddirCall ''/home/u/bar'' None],
                       stderr := [''Handling completions/complete request'' @ [CHR 0x0A]]\<rparr>) \<and>
      (\<forall>s \<in> set (argument_value \<lparr>ref = PromptRef ''file-contents'', argument_name = ''path'',
                      argument_value = ''foo''\<rparr> #
                    [''a.txt'', ''src/Foo.txt'', ''src/baz.txt'', ''bar/foobar.md'']).
         toLowerCase (lower_greek False) s = map toLowerChar s)"
    using demo_walk_complete l by simp
  have v: "filter (\<lambda>path. contains_ignoring_case toLowerChar path ''foo'')
     [''a.txt'', ''src/Foo.txt'', ''src/baz.txt'', ''bar/foobar.md''] =
     [''src/Foo.txt'', ''bar/foobar.md'']"
    by (simp add: f)
  from complete_filters_walk[OF h, of "lower_greek False" 3 "''/home/u''" demo_world,
      THEN conjunct2, rule_format, OF a] v
  show ?thesis by simp
qed

text \<open>
  C10. With the empty query the completion is the recursive walk itself: the same
  outcome, the same list in the same order, whatever the lower-casing of the platform.
\<close>

theorem complete_empty_query:
  assumes "ref request = PromptRef FILE_PROMPT_NAME" and "argument_value request = []"
  shows "complete lower_case fuel BASE_DIR request w =
     listFilesRecursively fuel BASE_DIR BASE_DIR
       (stderr_write (''Handling completions/complete request'' @ [CHR 0x0A]) w)"
  using assms
  by (simp add: complete_file_prompt split: option.splits sum.splits prod.splits)

theorem complete_empty_query_witness:
  "complete (lower_greek False) 3 ''/home/u''
      \<lparr>ref = PromptRef ''file-contents'', argument_name = ''path'', argument_value = []\<rparr>
      demo_world =
   Some (Inr [''a.txt'', ''src/Foo.txt'', ''src/baz.txt'', ''bar/foobar.md''],
         demo_world\<lparr>fs_log := [ReaddirCall ''/home/u'' None, ReaddirCall ''/home/u/src'' None,
                                   ReaddirCall ''/home/u/bar'' None],
                      stderr := [''Handling completions/complete request'' @ [CHR 0x0A]]\<rparr>)"
proof -
  have h: "ref \<lparr>ref = PromptRef ''file-contents'', argument_name = ''path'',
      argument_value = []\<rparr> = PromptRef FILE_PROMPT_NAME"
    by (simp add: FILE_PROMPT_NAME_def)
  have q: "argument_value \<lparr>ref = PromptRef ''file-contents'', argument_name = ''path'',
      argument_value = []\<rparr> = []" by simp
  show ?thesis
    unfolding complete_empty_query[OF h q] demo_walk_complete ..
qed

section \<open>The get-prompt handler\<close>

text \<open>
  C7. A get-prompt request for \<^verbatim>\<open>file-contents\<close> whose \<^verbatim>\<open>path\<close> argument is missing, not a
  string, or the empty string fails with an "Invalid path" error. No call to the
  filesystem is made (only the line on standard error is written), and the error is the
  same whatever the state of the world.
\<close>

theorem get_prompt_invalid_path:
  assumes "name request = FILE_PROMPT_NAME"
    and "(\<nexists>p. optional_get (arguments request) ''path'' = JStr p) \<or>
         optional_get (arguments request) ''path'' = JStr []"
  shows "get_prompt BASE_DIR request w =
           (Inl (Error (''Invalid path: '' @ js_toString (optional_get (arguments request) ''path''))),
            stderr_write (''Handling prompts/get request'' @ [CHR 0x0A]) w) \<and>
         fs_log (snd (get_prompt BASE_DIR request w)) = fs_log w \<and>
         fst (get_prompt BASE_DIR request w') = fst (get_prompt BASE_DIR request w)"
  using assms
  by (cases "optional_get (arguments request) ''path''") (auto simp: get_prompt_def Let_def)

theorem get_prompt_invalid_path_witness:
  "get_prompt ''/home/u'' \<lparr>name = ''file-contents'', arguments = JObj [(''path'', JStr [])]\<rparr>
      demo_world =
     (Inl (Error ''Invalid path: ''),
      demo_world\<lparr>stderr := [''Handling prompts/get request'' @ [CHR 0x0A]]\<rparr>) \<and>
   get_prompt ''/home/u'' \<lparr>name = ''file-contents'', arguments = JUndefined\<rparr> demo_world =
     (Inl (Error ''Invalid path: undefined''),
      demo_world\<lparr>stderr := [''Handling prompts/get request'' @ [CHR 0x0A]]\<rparr>) \<and>
   get_prompt ''/home/u'' \<lparr>name = ''file-contents'', arguments = JObj [(''path'', JNum 5)]\<rparr>
      demo_world =
     (Inl (Error ''Invalid path: 5''),
      demo_world\<lparr>stderr := [''Handling prompts/get request'' @ [CHR 0x0A]]\<rparr>)"
proof -
  have sw: "stderr_write s demo_world = demo_world\<lparr>stderr := [s]\<rparr>" for s
    by (simp add: stderr_write_def demo_world_def)
  have n: "name \<lparr>name = ''file-contents'', arguments = a\<rparr> = FILE_PROMPT_NAME" for a
    by (simp add: FILE_PROMPT_NAME_def)
  have a: "(\<nexists>p. optional_get (arguments \<lparr>name = ''file-contents'',
        arguments = JObj [(''path'', JStr [])]\<rparr>) ''path'' = JStr p) \<or>
      optional_get (arguments \<lparr>name = ''file-contents'',
        arguments = JObj [(''path'', JStr [])]\<rparr>) ''path'' = JStr []" by simp
  have b: "(\<nexists>p. optional_get (arguments \<lparr>name = ''file-contents'',
        arguments = JUndefined\<rparr>) ''path'' = JStr p) \<or>
      optional_get (arguments \<lparr>name = ''file-contents'',
        arguments = JUndefined\<rparr>) ''path'' = JStr []" by simp
  have c: "(\<nexists>p. optional_get (arguments \<lparr>name = ''file-contents'',
        arguments = JObj [(''path'', JNum 5)]\<rparr>) ''path'' = JStr p) \<or>
      optional_get (arguments \<lparr>name = ''file-contents'',
        arguments = JObj [(''path'', JNum 5)]\<rparr>) ''path'' = JStr []" by simp
  show ?thesis
    using get_prompt_invalid_path[OF n a, of "''/home/u''" demo_world demo_world]
      get_prompt_invalid_path[OF n b, of "''/home/u''" demo_world demo_world]
      get_prompt_invalid_path[OF n c, of "''/home/u''" demo_world demo_world]
    by (simp add: sw)
qed

section \<open>The read-resource handler\<close>

text \<open>
  C9, as stated: any readable file anywhere on the filesystem can be returned. Not every
  one: the handler reads the pathname the platform's URL parser gives, and that parser
  ends the path of a URL at the first \<^verbatim>\<open>#\<close>, so that no URI has a pathname with this
  character. The file \<^verbatim>\<open>/srv/a#b.txt\<close> exists and can be read, and it is the only file there
  is; with a parser that never yields a \<^verbatim>\<open>#\<close> no request returns any contents.
\<close>

theorem read_resource_any_file_counterexample:
  "lookup_path hash_world ''/srv/a#b.txt'' = Inr (Leaf RegularT (Inr ''secret'')) \<and>
   \<not> (\<exists>pathname u cs. never_yields (CHR ''#'') pathname \<and>
         fst (read_resource pathname u hash_world) = Inr cs)"
proof -
  have "fst (read_resource pathname u hash_world) \<noteq> Inr cs"
    if ny: "never_yields (CHR ''#'') pathname" for pathname u cs
  proof (cases "pathname u")
    case None
    then show ?thesis by (simp add: read_resource_def)
  next
    case (Some p)
    with ny have "CHR ''#'' \<notin> set p" unfolding never_yields_def by blast
    from hash_unreachable[OF this] have "lookup_path hash_world p \<noteq> Inr (Leaf t (Inr body))"
      for t body .
    with Some show ?thesis
      by (auto simp: read_resource_def readFile_def split: sum.splits node.splits)
  qed
  with hash_file show ?thesis by blast
qed

text \<open>
  C9, amended. The read-resource handler reads the pathname of the request's URI as the
  platform's URL parser gives it: whenever that pathname names a readable file, wherever
  it lies, the text of the file is returned; the one call made to the filesystem is the
  read of exactly that pathname; for an absolute pathname the result does not depend on
  the working directory, which is what the base directory is; and a URI the parser
  refuses fails before any call. The base directory is no parameter of the handler. And
  with a parser that leaves a \<^verbatim>\<open>file:\<close> path of unreserved characters as it is, every
  readable file whose absolute path is made of names of such characters is returned for
  the URI \<^verbatim>\<open>file://\<close> followed by that path.
\<close>

theorem read_resource_reads_pathname:
  "(\<forall>p t text. pathname request_uri = Some p \<and> lookup_path w p = Inr (Leaf t (Inr text)) \<longrightarrow>
      read_resource pathname request_uri w =
        (Inr [TextResourceContents request_uri ''text/plain'' text],
         log_call (ReadFileCall p None) w)) \<and>
   (\<forall>p. pathname request_uri = Some p \<longrightarrow>
      (\<exists>oc. fs_log (snd (read_resource pathname request_uri w)) = fs_log w @ [ReadFileCall p oc]) \<and>
      (isAbsolute p \<longrightarrow>
        fst (read_resource pathname request_uri (w\<lparr>cwd := c\<rparr>)) =
        fst (read_resource pathname request_uri w))) \<and>
   (pathname request_uri = None \<longrightarrow>
      read_resource pathname request_uri w = (Inl (TypeError ''Invalid URL''), w)) \<and>
   (\<forall>names t text. keeps_file_paths pathname \<and> names \<noteq> [] \<and>
        list_all unreserved_name names \<and>
        descend (root w) names = Some (Leaf t (Inr text)) \<longrightarrow>
      read_resource pathname (''file://'' @ absolute_path names) w =
        (Inr [TextResourceContents (''file://'' @ absolute_path names) ''text/plain'' text],
         log_call (ReadFileCall (absolute_path names) None) w))"
proof -
  have a: "(\<forall>p t text. pathname request_uri = Some p \<and> lookup_path w p = Inr (Leaf t (Inr text)) \<longrightarrow>
      read_resource pathname request_uri w =
        (Inr [TextResourceContents request_uri ''text/plain'' text],
         log_call (ReadFileCall p None) w)) \<and>
   (\<forall>p. pathname request_uri = Some p \<longrightarrow>
      (\<exists>oc. fs_log (snd (read_resource pathname request_uri w)) = fs_log w @ [ReadFileCall p oc]) \<and>
      (isAbsolute p \<longrightarrow>
        fst (read_resource pathname request_uri (w\<lparr>cwd := c\<rparr>)) =
        fst (read_resource pathname request_uri w))) \<and>
   (pathname request_uri = None \<longrightarrow>
      read_resource pathname request_uri w = (Inl (TypeError ''Invalid URL''), w))"
    by (auto simp: read_resource_def readFile_def lookup_path_def split: sum.splits node.splits)
  have b: "read_resource pathname (''file://'' @ absolute_path names) w =
        (Inr [TextResourceContents (''file://'' @ absolute_path names) ''text/plain'' body],
         log_call (ReadFileCall (absolute_path names) None) w)"
    if h: "keeps_file_paths pathname \<and> names \<noteq> [] \<and> list_all unreserved_name names \<and>
        descend (root w) names = Some (Leaf t (Inr body))" for names t body
  proof -
    from h have k: "keeps_file_paths pathname" and u: "list_all unreserved_name names"
      and ne: "names \<noteq> []"
      and d: "descend (root w) names = Some (Leaf t (Inr body))" by simp_all
    from k u have p: "pathname (''file://'' @ absolute_path names) = Some (absolute_path names)"
      unfolding keeps_file_paths_def by blast
    note v = unreserved_valid[OF u]
    have "namei (root w) [] (splitSep (absolute_path names)) = Inr (Leaf t (Inr body))"
      using ne namei_valid[OF v d, of "[]"] d
      by (cases "root w") (simp_all add: splitSep_absolute_path[OF v] descend_Leaf_Cons)
    then have "lookup_path w (absolute_path names) = Inr (Leaf t (Inr body))"
      by (simp add: lookup_path_def)
    with p show ?thesis by (simp add: read_resource_def readFile_def)
  qed
  from a b show ?thesis by blast
qed

theorem read_resource_reads_pathname_witness:
  "keeps_file_paths file_url_pathname \<and>
   read_resource file_url_pathname ''file:///etc/passwd'' demo_world =
     (Inr [TextResourceContents ''file:///etc/passwd'' ''text/plain'' ''root''],
      log_call (ReadFileCall ''/etc/passwd'' None) demo_world) \<and>
   cwd demo_world = ''/home/u'' \<and>
   fst (read_resource file_url_pathname ''file:///etc/passwd'' (demo_world\<lparr>cwd := ''/etc''\<rparr>)) =
     Inr [TextResourceContents ''file:///etc/passwd'' ''text/plain'' ''root'']"
proof -
  note t = read_resource_reads_pathname
      [of file_url_pathname "''file:///etc/passwd''" demo_world "''/etc''"]
  have p: "file_url_pathname ''file:///etc/passwd'' = Some ''/etc/passwd''" by code_simp
  have a: "isAbsolute ''/etc/passwd''" by code_simp
  have c: "cwd demo_world = ''/home/u''" by (simp add: demo_world_def)
  have u: "list_all unreserved_name [''etc'', ''passwd'']" by code_simp
  have ne: "[''etc'', ''passwd''] \<noteq> []" by simp
  have d: "descend (root demo_world) [''etc'', ''passwd''] = Some (Leaf RegularT (Inr ''root''))"
    by code_simp
  have n: "''file://'' @ absolute_path [''etc'', ''passwd''] = ''file:///etc/passwd''"
    "absolute_path [''etc'', ''passwd''] = ''/etc/passwd''"
    by code_simp+
  from t[THEN conjunct2, THEN conjunct2, THEN conjunct2, rule_format,
      OF conjI[OF file_url_pathname_keeps conjI[OF ne conjI[OF u d]]]]
  have r: "read_resource file_url_pathname ''file:///etc/passwd'' demo_world =
     (Inr [TextResourceContents ''file:///etc/passwd'' ''text/plain'' ''root''],
      log_call (ReadFileCall ''/etc/passwd'' None) demo_world)"
    by (simp add: n(2))
  from t[THEN conjunct2, THEN conjunct1, rule_format, OF p] a r
  have i: "fst (read_resource file_url_pathname ''file:///etc/passwd'' (demo_world\<lparr>cwd := ''/etc''\<rparr>)) =
     Inr [TextResourceContents ''file:///etc/passwd'' ''text/plain'' ''root'']"
    by simp
  from file_url_pathname_keeps r c i show ?thesis by blast
qed

end
